theory Spec2Isabelle
  imports Complex_Main
begin

section \<open>Receipt text extraction (src/ai/process\_receipt.py)\<close>

text \<open>
  The program reads a text blob and runs five extractors over it, each built on Python's
  \<^verbatim>\<open>re\<close>, \<^verbatim>\<open>str\<close>, \<^verbatim>\<open>float\<close>, \<^verbatim>\<open>int\<close> and
  \<^verbatim>\<open>datetime.strptime\<close>. The embedding has three layers: the characters and string
  operations of Python that the program calls, a backtracking matcher for the regular
  expressions it writes, and the methods of \<^verbatim>\<open>ReceiptProcessor\<close> themselves.

  A text is a list of code points. The model covers the code points U+0000 to U+00FF,
  one \<^typ>\<open>char\<close> each (\<open>CHR 0xE2\<close> is U+00E2). Every raise of the source is a
  value \<open>Inl e\<close>.
\<close>

subsection \<open>Characters\<close>

text \<open>
  The code point of a character, and Python's character classes on the modelled range,
  each as a predicate on the code point.
\<close>

definition cp :: "char \<Rightarrow> int" where
  "cp c = of_char c"

text \<open>\<^verbatim>\<open>str.isspace\<close> and the class \<^verbatim>\<open>\s\<close> of a str pattern.\<close>

definition space_cp :: "int \<Rightarrow> bool" where
  "space_cp n = ((9 \<le> n \<and> n \<le> 13) \<or> (28 \<le> n \<and> n \<le> 32) \<or> n = 133 \<or> n = 160)"

definition is_space :: "char \<Rightarrow> bool" where
  "is_space c = space_cp (cp c)"

text \<open>The class \<^verbatim>\<open>\d\<close>: the decimal digits.\<close>

definition digit_cp :: "int \<Rightarrow> bool" where
  "digit_cp n = (48 \<le> n \<and> n \<le> 57)"

definition is_digit :: "char \<Rightarrow> bool" where
  "is_digit c = digit_cp (cp c)"

text \<open>\<^verbatim>\<open>[A-Z]\<close> and \<^verbatim>\<open>[a-z]\<close>\<close>

definition upper_az_cp :: "int \<Rightarrow> bool" where
  "upper_az_cp n = (65 \<le> n \<and> n \<le> 90)"

definition lower_az_cp :: "int \<Rightarrow> bool" where
  "lower_az_cp n = (97 \<le> n \<and> n \<le> 122)"

definition is_upper_az :: "char \<Rightarrow> bool" where
  "is_upper_az c = upper_az_cp (cp c)"

definition is_lower_az :: "char \<Rightarrow> bool" where
  "is_lower_az c = lower_az_cp (cp c)"

text \<open>The class \<^verbatim>\<open>\w\<close>: alphanumeric (\<^verbatim>\<open>str.isalnum\<close>) or the underscore.\<close>

definition word_cp :: "int \<Rightarrow> bool" where
  "word_cp n = (digit_cp n \<or> upper_az_cp n \<or> lower_az_cp n \<or> n = 95
     \<or> n = 170 \<or> n = 178 \<or> n = 179 \<or> n = 181 \<or> n = 185 \<or> n = 186
     \<or> n = 188 \<or> n = 189 \<or> n = 190
     \<or> (192 \<le> n \<and> n \<le> 214) \<or> (216 \<le> n \<and> n \<le> 246) \<or> 248 \<le> n)"

definition is_word :: "char \<Rightarrow> bool" where
  "is_word c = word_cp (cp c)"

text \<open>
  \<^verbatim>\<open>str.lower\<close> on one code point, also the case folding of \<^verbatim>\<open>re.IGNORECASE\<close>:
  the upper-case letters are A to Z and U+00C0 to U+00DE without the multiplication
  sign, their lower case is 32 further.
\<close>

definition upper_cp :: "int \<Rightarrow> bool" where
  "upper_cp n = (upper_az_cp n \<or> (192 \<le> n \<and> n \<le> 222 \<and> n \<noteq> 215))"

definition lower :: "char \<Rightarrow> char" where
  "lower c = (if upper_cp (cp c) then char_of (cp c + 32) else c)"

text \<open>
  Upper case of one code point. The three code points whose upper case lies beyond
  U+00FF (0xB5, 0xDF, 0xFF) are left as they are; the program upper-cases only the
  first letter of a vocabulary word.
\<close>

definition lower_cp :: "int \<Rightarrow> bool" where
  "lower_cp n = (lower_az_cp n \<or> (224 \<le> n \<and> n \<le> 254 \<and> n \<noteq> 247))"

definition upper :: "char \<Rightarrow> char" where
  "upper c = (if lower_cp (cp c) then char_of (cp c - 32) else c)"

subsection \<open>String operations\<close>

text \<open>\<^verbatim>\<open>s.strip()\<close>\<close>

definition strip :: "string \<Rightarrow> string" where
  "strip s = rev (dropWhile is_space (rev (dropWhile is_space s)))"

text \<open>\<^verbatim>\<open>s.split('\n')\<close>: never empty; the text without a newline is its own single line.\<close>

fun split_nl :: "string \<Rightarrow> string list" where
  "split_nl [] = [[]]"
| "split_nl (c # cs) =
     (if c = CHR 0x0A then [] # split_nl cs
      else (case split_nl cs of [] \<Rightarrow> [[c]] | l # ls \<Rightarrow> (c # l) # ls))"

text \<open>\<^verbatim>\<open>s.startswith(p)\<close>\<close>

definition startswith :: "string \<Rightarrow> string \<Rightarrow> bool" where
  "startswith s p = (take (length p) s = p)"

text \<open>\<^verbatim>\<open>m in s\<close>\<close>

fun str_in :: "string \<Rightarrow> string \<Rightarrow> bool" where
  "str_in m [] = (m = [])"
| "str_in m (c # cs) = (startswith (c # cs) m \<or> str_in m cs)"

text \<open>\<^verbatim>\<open>s.replace(c, '')\<close> for a one-character \<open>c\<close>\<close>

definition remove_char :: "char \<Rightarrow> string \<Rightarrow> string" where
  "remove_char c s = filter (\<lambda>x. x \<noteq> c) s"

text \<open>\<^verbatim>\<open>s.capitalize()\<close>\<close>

definition capitalize :: "string \<Rightarrow> string" where
  "capitalize s = (case s of [] \<Rightarrow> [] | c # cs \<Rightarrow> upper c # map lower cs)"

subsection \<open>Numbers\<close>

text \<open>
  \<^verbatim>\<open>int(s)\<close> and \<^verbatim>\<open>float(s)\<close> strip the blanks below (not the separators
  U+001C to U+001F, which \<^verbatim>\<open>\s\<close> matches), read an optional sign and then decimal
  digits, \<^verbatim>\<open>float\<close> with an optional fraction. A float is kept as the exact rational
  the digits denote; the rounding to a double and the overflow to \<^verbatim>\<open>inf\<close> are not
  modelled. Spellings with an exponent, an underscore, \<^verbatim>\<open>inf\<close> or \<^verbatim>\<open>nan\<close>
  are rejected here; no capture of the program's patterns can spell one. The limit on
  the digits of \<^verbatim>\<open>int\<close> (4300 from CPython 3.11) is not modelled either.
\<close>

definition num_space_cp :: "int \<Rightarrow> bool" where
  "num_space_cp n = ((9 \<le> n \<and> n \<le> 13) \<or> n = 32 \<or> n = 133 \<or> n = 160)"

definition num_space :: "char \<Rightarrow> bool" where
  "num_space c = num_space_cp (cp c)"

definition num_strip :: "string \<Rightarrow> string" where
  "num_strip s = rev (dropWhile num_space (rev (dropWhile num_space s)))"

text \<open>The number a string of decimal digits denotes.\<close>

definition digits_val :: "string \<Rightarrow> int" where
  "digits_val s = foldl (\<lambda>a c. 10 * a + (cp c - 48)) 0 s"

definition split_sign :: "string \<Rightarrow> bool \<times> string" where
  "split_sign s = (case s of [] \<Rightarrow> (False, [])
     | c # r \<Rightarrow> if c = CHR ''-'' then (True, r) else if c = CHR ''+'' then (False, r)
                else (False, c # r))"

definition py_int :: "string \<Rightarrow> int option" where
  "py_int s = (case split_sign (num_strip s) of (neg, u) \<Rightarrow>
     if u \<noteq> [] \<and> list_all is_digit u
     then Some (if neg then - digits_val u else digits_val u)
     else None)"

definition py_float :: "string \<Rightarrow> rat option" where
  "py_float s = (case split_sign (num_strip s) of (neg, u) \<Rightarrow>
     (let ip = takeWhile is_digit u; r = dropWhile is_digit u in
      (case r of
         [] \<Rightarrow> if ip = [] then None
               else Some (if neg then - of_int (digits_val ip) else of_int (digits_val ip))
       | d # fp \<Rightarrow>
           if d = CHR ''.'' \<and> list_all is_digit fp \<and> (ip \<noteq> [] \<or> fp \<noteq> [])
           then Some ((if neg then - of_int (digits_val (ip @ fp))
                       else of_int (digits_val (ip @ fp))) / 10 ^ length fp)
           else None)))"

subsection \<open>Regular expressions\<close>

text \<open>
  The patterns of the program use literals, classes, groups, alternation, the greedy
  quantifiers, \<^verbatim>\<open>\b\<close> and, under \<^verbatim>\<open>re.MULTILINE\<close>, \<^verbatim>\<open>^\<close>. \<open>Atom p\<close> matches one
  character satisfying \<open>p\<close>; case-insensitive matching is written into the atoms.
\<close>

datatype re = Atom "char \<Rightarrow> bool" | Eps | Seq re re | Alt re re | Star re | Grp nat re
  | WordB | LineStart

text \<open>
  A matcher state: the character before the position, the text from the position on,
  and the groups captured so far (newest first).
\<close>

datatype mstate = MState (prev: "char option") (rest: string) (caps: "(nat \<times> string) list")

definition is_word_opt :: "char option \<Rightarrow> bool" where
  "is_word_opt x = (case x of None \<Rightarrow> False | Some c \<Rightarrow> is_word c)"

definition peek :: "string \<Rightarrow> char option" where
  "peek s = (case s of [] \<Rightarrow> None | c # _ \<Rightarrow> Some c)"

text \<open>
  \<open>ms r s\<close> lists the states in which a match of \<open>r\<close> begun in \<open>s\<close> can end, in the order
  in which Python's backtracking matcher tries them: the left alternative before the
  right one, one more iteration of a star before stopping. The first element is the
  match Python reports. An iteration of a star has to consume a character; every
  starred expression of the program does.
\<close>

function (sequential) ms :: "re \<Rightarrow> mstate \<Rightarrow> mstate list" where
  "ms (Atom p) s =
     (case rest s of [] \<Rightarrow> []
      | c # cs \<Rightarrow> if p c then [MState (Some c) cs (caps s)] else [])"
| "ms Eps s = [s]"
| "ms (Seq a b) s = concat (map (ms b) (ms a s))"
| "ms (Alt a b) s = ms a s @ ms b s"
| "ms (Star a) s =
     concat (map (ms (Star a)) (filter (\<lambda>t. length (rest t) < length (rest s)) (ms a s))) @ [s]"
| "ms (Grp n a) s =
     map (\<lambda>t. MState (prev t) (rest t)
                ((n, take (length (rest s) - length (rest t)) (rest s)) # caps t)) (ms a s)"
| "ms WordB s = (if is_word_opt (prev s) \<noteq> is_word_opt (peek (rest s)) then [s] else [])"
| "ms LineStart s = (if prev s = None \<or> prev s = Some (CHR 0x0A) then [s] else [])"
  by pat_completeness auto
termination
  by (relation "measures [\<lambda>(r, s). size r, \<lambda>(r, s). length (rest s)]") auto

text \<open>A match object: the matched text (group 0) and the final state with the groups.\<close>

type_synonym rmatch = "string \<times> mstate"

definition group_of :: "rmatch \<Rightarrow> nat \<Rightarrow> string option" where
  "group_of m n = (if n = 0 then Some (fst m) else map_of (caps (snd m)) n)"

text \<open>\<^verbatim>\<open>re.search\<close>: the first match at the leftmost position that has one.\<close>

fun search_from :: "re \<Rightarrow> char option \<Rightarrow> string \<Rightarrow> rmatch option" where
  "search_from r p [] = (case ms r (MState p [] []) of [] \<Rightarrow> None | t # _ \<Rightarrow> Some ([], t))"
| "search_from r p (c # cs) =
     (case ms r (MState p (c # cs) []) of
        [] \<Rightarrow> search_from r (Some c) cs
      | t # _ \<Rightarrow> Some (take (length (c # cs) - length (rest t)) (c # cs), t))"

definition re_search :: "re \<Rightarrow> string \<Rightarrow> rmatch option" where
  "re_search r text = search_from r None text"

text \<open>
  \<^verbatim>\<open>re.findall\<close> for a pattern with one group: the group of every match (the empty
  string for a group that took no part), each search starting where the previous match
  ended, one character further after an empty match. A match ends inside the text it
  was found in, so the guards on the lengths always hold; they are there for the
  termination proof.
\<close>

definition group_text :: "rmatch \<Rightarrow> nat \<Rightarrow> string" where
  "group_text m n = (case group_of m n of None \<Rightarrow> [] | Some g \<Rightarrow> g)"

function findall_from :: "re \<Rightarrow> char option \<Rightarrow> string \<Rightarrow> string list" where
  "findall_from r p cs =
     (case search_from r p cs of
        None \<Rightarrow> []
      | Some m \<Rightarrow>
          if fst m = [] then
            (case rest (snd m) of
               [] \<Rightarrow> [group_text m 1]
             | c # cs' \<Rightarrow>
                 if length cs' < length cs then group_text m 1 # findall_from r (Some c) cs'
                 else [group_text m 1])
          else if length (rest (snd m)) < length cs
          then group_text m 1 # findall_from r (prev (snd m)) (rest (snd m))
          else [group_text m 1])"
  by pat_completeness auto
termination
  by (relation "measure (\<lambda>(r, p, cs). length cs)") auto

definition re_findall :: "re \<Rightarrow> string \<Rightarrow> string list" where
  "re_findall r text = findall_from r None text"

text \<open>
  Pattern syntax. A literal character, a literal character under \<^verbatim>\<open>re.IGNORECASE\<close>
  (the matcher compares the lower cases), and a class written as the list of its
  members.
\<close>

definition is_char :: "char \<Rightarrow> char \<Rightarrow> bool" where
  "is_char c x = (x = c)"

definition is_char_i :: "char \<Rightarrow> char \<Rightarrow> bool" where
  "is_char_i c x = (lower x = lower c)"

definition in_class :: "string \<Rightarrow> char \<Rightarrow> bool" where
  "in_class cs x = (x \<in> set cs)"

definition chr :: "char \<Rightarrow> re" where
  "chr c = Atom (is_char c)"

definition ichr :: "char \<Rightarrow> re" where
  "ichr c = Atom (is_char_i c)"

definition r_class :: "string \<Rightarrow> re" where
  "r_class cs = Atom (in_class cs)"

fun seqs :: "re list \<Rightarrow> re" where
  "seqs [] = Eps"
| "seqs [r] = r"
| "seqs (r # rs) = Seq r (seqs rs)"

fun alts :: "re list \<Rightarrow> re" where
  "alts [] = Eps"
| "alts [r] = r"
| "alts (r # rs) = Alt r (alts rs)"

definition lit :: "string \<Rightarrow> re" where
  "lit s = seqs (map chr s)"

definition ilit :: "string \<Rightarrow> re" where
  "ilit s = seqs (map ichr s)"

definition ropt :: "re \<Rightarrow> re" where
  "ropt r = Alt r Eps"

definition rplus :: "re \<Rightarrow> re" where
  "rplus r = Seq r (Star r)"

text \<open>\<open>rep lo hi r\<close> is \<^verbatim>\<open>r{lo,hi}\<close>, greedy.\<close>

fun rep :: "nat \<Rightarrow> nat \<Rightarrow> re \<Rightarrow> re" where
  "rep 0 0 r = Eps"
| "rep 0 (Suc h) r = ropt (Seq r (rep 0 h r))"
| "rep (Suc l) h r = Seq r (rep l (h - 1) r)"

definition r_digit :: re where
  "r_digit = Atom is_digit"

definition r_space :: re where
  "r_space = Atom is_space"

text \<open>\<^verbatim>\<open>.\<close> without \<^verbatim>\<open>re.DOTALL\<close>\<close>

definition not_newline :: "char \<Rightarrow> bool" where
  "not_newline c = (c \<noteq> CHR 0x0A)"

definition r_dot :: re where
  "r_dot = Atom not_newline"

subsection \<open>Dates\<close>

text \<open>
  \<^verbatim>\<open>datetime.strptime\<close> turns the format into a regular expression with one group per
  directive, matches it case-insensitively at the start of the string, and raises
  ValueError when it does not match, when text remains after the match, or when the
  fields are no calendar date. \<open>None\<close> is that ValueError. The formats of the program
  use the four directives below; the groups are numbered 1 for \<^verbatim>\<open>%m\<close>, 2 for
  \<^verbatim>\<open>%d\<close>, 3 for \<^verbatim>\<open>%Y\<close> and 4 for \<^verbatim>\<open>%y\<close>.
\<close>

datatype fmt_item = Dm | Dd | DY | Dy | Lit char

fun item_re :: "fmt_item \<Rightarrow> re" where
  "item_re Dm = Grp 1 (alts [Seq (chr CHR ''1'') (r_class ''012''),
                            Seq (chr CHR ''0'') (r_class ''123456789''),
                            r_class ''123456789''])"
| "item_re Dd = Grp 2 (alts [Seq (chr CHR ''3'') (r_class ''01''),
                            Seq (r_class ''12'') r_digit,
                            Seq (chr CHR ''0'') (r_class ''123456789''),
                            r_class ''123456789'',
                            Seq (chr CHR '' '') (r_class ''123456789'')])"
| "item_re DY = Grp 3 (seqs [r_digit, r_digit, r_digit, r_digit])"
| "item_re Dy = Grp 4 (seqs [r_digit, r_digit])"
| "item_re (Lit c) = ichr c"

definition field_val :: "string \<Rightarrow> int" where
  "field_val w = (case py_int w of None \<Rightarrow> 0 | Some v \<Rightarrow> v)"

definition leap_year :: "int \<Rightarrow> bool" where
  "leap_year y = (y mod 4 = 0 \<and> (y mod 100 \<noteq> 0 \<or> y mod 400 = 0))"

definition days_in_month :: "int \<Rightarrow> int \<Rightarrow> int" where
  "days_in_month y m =
     (if m = 2 then (if leap_year y then 29 else 28)
      else if m = 4 \<or> m = 6 \<or> m = 9 \<or> m = 11 then 30 else 31)"

type_synonym ymd = "int \<times> int \<times> int"

definition strptime :: "fmt_item list \<Rightarrow> string \<Rightarrow> ymd option" where
  "strptime fmt s =
     (case ms (seqs (map item_re fmt)) (MState None s []) of
        [] \<Rightarrow> None
      | t # _ \<Rightarrow>
          if rest t \<noteq> [] then None
          else
            (let g = map_of (caps t);
                 year = (case g 3 of Some w \<Rightarrow> field_val w
                         | None \<Rightarrow>
                            (case g 4 of
                               Some w \<Rightarrow> (if field_val w < 69 then 2000 + field_val w
                                          else 1900 + field_val w)
                             | None \<Rightarrow> 1900));
                 month = (case g 1 of Some w \<Rightarrow> field_val w | None \<Rightarrow> 1);
                 day = (case g 2 of Some w \<Rightarrow> field_val w | None \<Rightarrow> 1)
             in if 1 \<le> year \<and> 1 \<le> month \<and> month \<le> 12 \<and> 1 \<le> day
                   \<and> day \<le> days_in_month year month
                then Some (year, month, day) else None))"

text \<open>The decimal digits of a number that is not negative.\<close>

definition digit_char :: "int \<Rightarrow> char" where
  "digit_char n = char_of (48 + n)"

function show_int :: "int \<Rightarrow> string" where
  "show_int n = (if n < 10 then [digit_char n] else show_int (n div 10) @ [digit_char (n mod 10)])"
  by pat_completeness auto
termination
  by (relation "measure nat") auto

definition pad2 :: "int \<Rightarrow> string" where
  "pad2 n = (if n < 10 then CHR ''0'' # show_int n else show_int n)"

text \<open>
  \<^verbatim>\<open>d.strftime('%Y-%m-%d')\<close>. The C library writes the year without padding; from the
  year 1000 on this is four digits.
\<close>

definition strftime :: "ymd \<Rightarrow> string" where
  "strftime d = (case d of (y, m, dd) \<Rightarrow> show_int y @ ''-'' @ pad2 m @ ''-'' @ pad2 dd)"

subsection \<open>The methods of ReceiptProcessor\<close>

datatype py_error = RuntimeError string | ValueError | UnboundLocalError | AttributeError
  | ReError

subsubsection \<open>parse\_date\<close>

definition months :: "string list" where
  "months = [''Jan'', ''Feb'', ''Mar'', ''Apr'', ''May'', ''Jun'',
             ''Jul'', ''Aug'', ''Sep'', ''Oct'', ''Nov'', ''Dec'']"

text \<open>\<^verbatim>\<open>[a-z]\<close> under \<^verbatim>\<open>re.IGNORECASE\<close>\<close>

definition letter_az_cp :: "int \<Rightarrow> bool" where
  "letter_az_cp n = (lower_az_cp n \<or> upper_az_cp n)"

definition is_letter_az :: "char \<Rightarrow> bool" where
  "is_letter_az c = letter_az_cp (cp c)"

definition r_letter_i :: re where
  "r_letter_i = Atom is_letter_az"

text \<open>The five patterns, compiled with \<^verbatim>\<open>re.IGNORECASE\<close>.\<close>

definition date_pattern1 :: re where
  "date_pattern1 = seqs [WordB, rep 1 2 r_digit, chr CHR ''/'', rep 1 2 r_digit, chr CHR ''/'',
                         rep 2 4 r_digit, WordB]"

definition date_pattern2 :: re where
  "date_pattern2 = seqs [WordB, rep 1 2 r_digit, chr CHR ''-'', rep 1 2 r_digit, chr CHR ''-'',
                         rep 2 4 r_digit, WordB]"

definition date_pattern3 :: re where
  "date_pattern3 = seqs [WordB, rep 4 4 r_digit, chr CHR ''-'', rep 2 2 r_digit, chr CHR ''-'',
                         rep 2 2 r_digit, WordB]"

definition date_pattern4 :: re where
  "date_pattern4 = seqs [WordB, Grp 1 (alts (map ilit months)), Star r_letter_i, chr CHR '' '',
                         rep 1 2 r_digit, ropt (chr CHR '',''), chr CHR '' '', rep 4 4 r_digit,
                         WordB]"

definition date_pattern5 :: re where
  "date_pattern5 = seqs [WordB, rep 1 2 r_digit, chr CHR '' '', Grp 1 (alts (map ilit months)),
                         Star r_letter_i, chr CHR '' '', rep 4 4 r_digit, WordB]"

definition date_patterns :: "re list" where
  "date_patterns = [date_pattern1, date_pattern2, date_pattern3, date_pattern4, date_pattern5]"

definition fmt_mdY_slash :: "fmt_item list" where
  "fmt_mdY_slash = [Dm, Lit CHR ''/'', Dd, Lit CHR ''/'', DY]"

definition fmt_Ymd_dash :: "fmt_item list" where
  "fmt_Ymd_dash = [DY, Lit CHR ''-'', Dm, Lit CHR ''-'', Dd]"

definition fallback_formats :: "fmt_item list list" where
  "fallback_formats = [[Dm, Lit CHR ''-'', Dd, Lit CHR ''-'', DY],
                       [Dd, Lit CHR ''-'', Dm, Lit CHR ''-'', DY],
                       [Dm, Lit CHR ''/'', Dd, Lit CHR ''/'', Dy],
                       [Dd, Lit CHR ''/'', Dm, Lit CHR ''/'', Dy]]"

text \<open>The inner loop over the formats: the first one that parses, if any.\<close>

fun first_parse :: "fmt_item list list \<Rightarrow> string \<Rightarrow> ymd option" where
  "first_parse [] s = None"
| "first_parse (f # fs) s = (case strptime f s of Some d \<Rightarrow> Some d | None \<Rightarrow> first_parse fs s)"

text \<open>
  The body of the \<^verbatim>\<open>try\<close> for one matched string. \<open>Inr None\<close> is the caught
  ValueError (the loop continues with the next pattern). In the last branch
  \<^verbatim>\<open>parsed\<close> is assigned only if a format parses; otherwise
  \<^verbatim>\<open>parsed.strftime\<close> reads an unassigned local, and the UnboundLocalError is not
  a ValueError.
\<close>

definition parse_match :: "string \<Rightarrow> py_error + string option" where
  "parse_match date_str =
     (if CHR ''/'' \<in> set date_str then
        (case strptime fmt_mdY_slash date_str of
           None \<Rightarrow> Inr None | Some d \<Rightarrow> Inr (Some (strftime d)))
      else if CHR ''-'' \<in> set date_str
              \<and> length (takeWhile (\<lambda>c. c \<noteq> CHR ''-'') date_str) = 4 then
        (case strptime fmt_Ymd_dash date_str of
           None \<Rightarrow> Inr None | Some d \<Rightarrow> Inr (Some (strftime d)))
      else
        (case first_parse fallback_formats date_str of
           None \<Rightarrow> Inl UnboundLocalError | Some d \<Rightarrow> Inr (Some (strftime d))))"

fun parse_date_loop :: "re list \<Rightarrow> string \<Rightarrow> py_error + string option" where
  "parse_date_loop [] text = Inr None"
| "parse_date_loop (p # ps) text =
     (case re_search p text of
        None \<Rightarrow> parse_date_loop ps text
      | Some m \<Rightarrow>
          (case parse_match (fst m) of
             Inl e \<Rightarrow> Inl e
           | Inr (Some d) \<Rightarrow> Inr (Some d)
           | Inr None \<Rightarrow> parse_date_loop ps text))"

definition parse_date :: "string \<Rightarrow> py_error + string option" where
  "parse_date text = parse_date_loop date_patterns text"

subsubsection \<open>parse\_vendor\<close>

text \<open>
  The four patterns, searched with \<^verbatim>\<open>re.MULTILINE\<close>; the first two carry
  \<^verbatim>\<open>(?i)\<close>. In each the method reads group 1: the label or greeting word in the
  first two, the last repetition of the inner word group in the other two.
\<close>

definition r_capword :: re where
  "r_capword = Seq (Atom is_upper_az) (rplus (Atom is_lower_az))"

definition vendor_pattern1 :: re where
  "vendor_pattern1 =
     seqs [Grp 1 (alts (map ilit [''vendor'', ''merchant'', ''store'', ''restaurant'', ''cafe'',
                                  ''shop''])),
           ropt (chr CHR '':''), Star r_space, Grp 2 (rplus r_dot)]"

definition vendor_pattern2 :: re where
  "vendor_pattern2 =
     seqs [Grp 1 (alts (map ilit [''thank you'', ''visit again'', ''welcome to''])),
           Star r_space, Grp 2 (rplus r_dot)]"

definition vendor_pattern3 :: re where
  "vendor_pattern3 =
     seqs [LineStart, r_capword, Star (Grp 1 (Seq (rplus r_space) r_capword)), rplus r_space,
           Grp 2 (alts (map lit [''Inc'', ''LLC'', ''Corp'', ''Ltd'', ''Pty''])), WordB]"

definition vendor_pattern4 :: re where
  "vendor_pattern4 =
     seqs [LineStart, r_capword, Star (Grp 1 (Seq (rplus r_space) r_capword)), rplus r_space,
           Grp 2 (alts (map lit [''Restaurant'', ''Cafe'', ''Store'', ''Market'', ''Shop''])),
           WordB]"

definition vendor_patterns :: "re list" where
  "vendor_patterns = [vendor_pattern1, vendor_pattern2, vendor_pattern3, vendor_pattern4]"

text \<open>The fallback: the first of the first three lines that qualifies.\<close>

fun vendor_fallback :: "string list \<Rightarrow> string" where
  "vendor_fallback [] = ''Unknown Vendor''"
| "vendor_fallback (l # ls) =
     (let line = strip l in
      if length line > 2 \<and> \<not> startswith line ''Date:'' \<and> \<not> startswith line ''Time:''
      then line else vendor_fallback ls)"

text \<open>
  The loop over the patterns. A group that took no part in the match is
  \<^verbatim>\<open>None\<close>, and \<^verbatim>\<open>None.strip()\<close> raises AttributeError.
\<close>

fun parse_vendor_loop :: "re list \<Rightarrow> string \<Rightarrow> py_error + string" where
  "parse_vendor_loop [] text = Inr (vendor_fallback (take 3 (split_nl text)))"
| "parse_vendor_loop (p # ps) text =
     (case re_search p text of
        None \<Rightarrow> parse_vendor_loop ps text
      | Some m \<Rightarrow>
          (case group_of m 1 of
             None \<Rightarrow> Inl AttributeError
           | Some g \<Rightarrow>
               (let vendor = strip g in
                if length vendor > 2 then Inr vendor else parse_vendor_loop ps text)))"

definition parse_vendor :: "string \<Rightarrow> py_error + string" where
  "parse_vendor text = parse_vendor_loop vendor_patterns text"

subsubsection \<open>parse\_total\<close>

text \<open>
  The currency class of the source file is written with the code points U+0024, U+00E2,
  U+201A, U+00AC, U+00C2 and U+0141; the four below are those of the modelled range.
\<close>

definition r_currency :: re where
  "r_currency = r_class [CHR ''$'', CHR 0xE2, CHR 0xAC, CHR 0xC2]"

text \<open>\<^verbatim>\<open>[\d,]+\.\d{2}\<close>\<close>

definition is_digit_or_comma :: "char \<Rightarrow> bool" where
  "is_digit_or_comma c = (is_digit c \<or> c = CHR '','')"

definition r_amount :: re where
  "r_amount = seqs [rplus (Atom is_digit_or_comma), chr CHR ''.'', rep 2 2 r_digit]"

definition total_pattern1 :: re where
  "total_pattern1 =
     seqs [Grp 1 (alts (map ilit [''total'', ''amount'', ''balance'', ''due''])),
           ropt (chr CHR '':''), Star r_space, ropt r_currency, Star r_space, Grp 2 r_amount]"

definition total_pattern2 :: re where
  "total_pattern2 =
     seqs [Grp 1 (alts (map ilit [''subtotal'', ''total'', ''amount''])),
           Star r_space, ropt r_currency, Star r_space, Grp 2 r_amount]"

text \<open>
  The third pattern carries \<^verbatim>\<open>(?i)\<close> in the middle of the expression. CPython up to
  3.10 compiles it, with a deprecation warning, as a flag of the whole pattern; from
  3.11 on \<^verbatim>\<open>re.search\<close> raises \<^verbatim>\<open>re.error\<close> for it, whatever the text. The
  repository does not fix the interpreter, so the methods that reach this pattern take
  the behaviour as the parameter \<open>strict\<close> (\<open>True\<close> for 3.11 and later).
\<close>

definition total_pattern3 :: re where
  "total_pattern3 =
     seqs [ropt r_currency, Star r_space, Grp 1 r_amount, Star r_space,
           Grp 2 (alts (map ilit [''total'', ''due'', ''balance'']))]"

definition total_patterns :: "bool \<Rightarrow> (py_error + re) list" where
  "total_patterns strict =
     [Inr total_pattern1, Inr total_pattern2,
      if strict then Inl ReError else Inr total_pattern3]"

definition amount_pattern :: re where
  "amount_pattern = seqs [ropt r_currency, Star r_space, Grp 1 r_amount]"

text \<open>
  The loop over the patterns; \<open>Inr None\<close> when no pattern returned. The method reads
  group 1 of every pattern. A ValueError of \<^verbatim>\<open>float\<close> is caught and the loop goes
  on.
\<close>

fun parse_total_loop :: "(py_error + re) list \<Rightarrow> string \<Rightarrow> py_error + rat option" where
  "parse_total_loop [] text = Inr None"
| "parse_total_loop (Inl e # ps) text = Inl e"
| "parse_total_loop (Inr p # ps) text =
     (case re_search p text of
        None \<Rightarrow> parse_total_loop ps text
      | Some m \<Rightarrow>
          (case group_of m 1 of
             None \<Rightarrow> Inl AttributeError
           | Some g \<Rightarrow>
               (case py_float (remove_char CHR '','' g) of
                  Some v \<Rightarrow> Inr (Some v)
                | None \<Rightarrow> parse_total_loop ps text)))"

text \<open>The fallback: the last amount in the text; the conversion is outside any \<^verbatim>\<open>try\<close>.\<close>

definition total_fallback :: "string \<Rightarrow> py_error + rat" where
  "total_fallback text =
     (let amounts = re_findall amount_pattern text in
      if amounts \<noteq> [] then
        (case py_float (remove_char CHR '','' (last amounts)) of
           None \<Rightarrow> Inl ValueError | Some v \<Rightarrow> Inr v)
      else Inr 0)"

definition parse_total :: "bool \<Rightarrow> string \<Rightarrow> py_error + rat" where
  "parse_total strict text =
     (case parse_total_loop (total_patterns strict) text of
        Inl e \<Rightarrow> Inl e
      | Inr (Some v) \<Rightarrow> Inr v
      | Inr None \<Rightarrow> total_fallback text)"

subsubsection \<open>parse\_payment\_method\<close>

definition methods :: "string list" where
  "methods = [''cash'', ''credit'', ''debit'', ''visa'', ''mastercard'', ''amex'', ''discover'',
              ''paypal'', ''venmo'', ''apple pay'', ''google pay'', ''mobile pay'']"

fun payment_loop :: "string list \<Rightarrow> string \<Rightarrow> string" where
  "payment_loop [] text_lower = ''Unknown''"
| "payment_loop (method # rest_methods) text_lower =
     (if str_in method text_lower then capitalize method else payment_loop rest_methods text_lower)"

definition parse_payment_method :: "string \<Rightarrow> string" where
  "parse_payment_method text = payment_loop methods (map lower text)"

subsubsection \<open>parse\_items\<close>

record line_item =
  description :: string
  quantity :: int
  unit_price :: rat
  total_price :: rat
  category :: string

definition r_price :: re where
  "r_price = seqs [ropt r_currency, Star r_space, r_amount]"

text \<open>\<^verbatim>\<open>[A-Za-z\s]\<close>\<close>

definition letter_or_space_cp :: "int \<Rightarrow> bool" where
  "letter_or_space_cp n = (upper_az_cp n \<or> lower_az_cp n \<or> space_cp n)"

definition is_letter_or_space :: "char \<Rightarrow> bool" where
  "is_letter_or_space c = letter_or_space_cp (cp c)"

definition item_pattern :: re where
  "item_pattern =
     seqs [Grp 1 (rplus (Atom is_letter_or_space)),
           rplus r_space, Grp 2 (rplus r_digit), rplus r_space, chr CHR ''@'', rplus r_space,
           Grp 3 r_price, rplus r_space, Grp 4 r_price]"

definition price_of :: "string \<Rightarrow> rat option" where
  "price_of g = py_float (remove_char CHR '','' (remove_char CHR ''$'' g))"

text \<open>
  The body of the loop for one line: \<open>Inr None\<close> when the pattern does not match,
  \<open>Inl\<close> when a conversion raises (none is caught in this method).
\<close>

definition parse_item_line :: "string \<Rightarrow> py_error + line_item option" where
  "parse_item_line line =
     (case re_search item_pattern line of
        None \<Rightarrow> Inr None
      | Some m \<Rightarrow>
          (case (group_of m 1, group_of m 2, group_of m 3, group_of m 4) of
             (Some g1, Some g2, Some g3, Some g4) \<Rightarrow>
               (case py_int g2 of
                  None \<Rightarrow> Inl ValueError
                | Some q \<Rightarrow>
                    (case price_of g3 of
                       None \<Rightarrow> Inl ValueError
                     | Some u \<Rightarrow>
                         (case price_of g4 of
                            None \<Rightarrow> Inl ValueError
                          | Some t \<Rightarrow>
                              Inr (Some \<lparr>description = strip g1, quantity = q,
                                         unit_price = u, total_price = t,
                                         category = ''general''\<rparr>))))
           | _ \<Rightarrow> Inl AttributeError))"

fun items_loop :: "string list \<Rightarrow> line_item list \<Rightarrow> py_error + line_item list" where
  "items_loop [] items = Inr items"
| "items_loop (line # lines) items =
     (case parse_item_line line of
        Inl e \<Rightarrow> Inl e
      | Inr None \<Rightarrow> items_loop lines items
      | Inr (Some it) \<Rightarrow> items_loop lines (items @ [it]))"

definition parse_items :: "string \<Rightarrow> py_error + line_item list" where
  "parse_items text = items_loop (split_nl text) []"

subsubsection \<open>process\_receipt\<close>

record receipt =
  error :: "py_error option"
  vendor :: string
  date :: string
  total :: rat
  payment_method :: string
  currency :: string
  raw_text :: string
  confidence :: rat
  items :: "line_item list"

text \<open>The record of the \<^verbatim>\<open>except Exception\<close> branch.\<close>

definition error_record :: "py_error \<Rightarrow> string \<Rightarrow> receipt" where
  "error_record e today =
     \<lparr>error = Some e, vendor = ''Unknown'', date = today, total = 0,
      payment_method = ''Unknown'', currency = ''USD'', raw_text = [],
      confidence = 5 / 10, items = []\<rparr>"

text \<open>
  \<^verbatim>\<open>preprocess_image\<close> and \<^verbatim>\<open>extract_text\<close> call OpenCV and Tesseract; the model
  takes their joint outcome for the image path as \<open>acquired\<close>: the text, or the
  RuntimeError either of them raises. \<open>today\<close> is what
  \<^verbatim>\<open>datetime.now().strftime('%Y-%m-%d')\<close> gives.
\<close>

definition process_receipt :: "bool \<Rightarrow> string \<Rightarrow> py_error + string \<Rightarrow> receipt" where
  "process_receipt strict today acquired =
     (case acquired of
        Inl e \<Rightarrow> error_record e today
      | Inr text \<Rightarrow>
          (case parse_vendor text of
             Inl e \<Rightarrow> error_record e today
           | Inr v \<Rightarrow>
               (case parse_date text of
                  Inl e \<Rightarrow> error_record e today
                | Inr d \<Rightarrow>
                    (case parse_total strict text of
                       Inl e \<Rightarrow> error_record e today
                     | Inr t \<Rightarrow>
                         (case parse_items text of
                            Inl e \<Rightarrow> error_record e today
                          | Inr its \<Rightarrow>
                              \<lparr>error = None, vendor = v,
                               date = (case d of None \<Rightarrow> today
                                       | Some x \<Rightarrow> if x = [] then today else x),
                               total = t,
                               payment_method = parse_payment_method text,
                               currency = ''USD'', raw_text = text,
                               confidence = (if length its > 0 then 95 / 100 else 85 / 100),
                               items = its\<rparr>)))))"

subsection \<open>Notions used in the statements\<close>

text \<open>
  The characters a pattern can consume: \<open>alpha r c\<close> holds when some atom of \<open>r\<close>
  accepts \<open>c\<close>.
\<close>

fun alpha :: "re \<Rightarrow> char \<Rightarrow> bool" where
  "alpha (Atom p) c = p c"
| "alpha Eps c = False"
| "alpha (Seq a b) c = (alpha a c \<or> alpha b c)"
| "alpha (Alt a b) c = (alpha a c \<or> alpha b c)"
| "alpha (Star a) c = alpha a c"
| "alpha (Grp n a) c = alpha a c"
| "alpha WordB c = False"
| "alpha LineStart c = False"

text \<open>
  The characters group \<open>n\<close> of a pattern can capture: \<open>galpha r n c\<close> holds when some atom
  inside a group numbered \<open>n\<close> accepts \<open>c\<close>.
\<close>

fun galpha :: "re \<Rightarrow> nat \<Rightarrow> char \<Rightarrow> bool" where
  "galpha (Atom p) n c = False"
| "galpha Eps n c = False"
| "galpha (Seq a b) n c = (galpha a n c \<or> galpha b n c)"
| "galpha (Alt a b) n c = (galpha a n c \<or> galpha b n c)"
| "galpha (Star a) n c = galpha a n c"
| "galpha (Grp k a) n c = ((k = n \<and> alpha a c) \<or> galpha a n c)"
| "galpha WordB n c = False"
| "galpha LineStart n c = False"

text \<open>
  The least number of characters a pattern consumes, and \<open>gmin_ge k r n\<close>: every group
  numbered \<open>n\<close> in \<open>r\<close> captures at least \<open>k\<close> characters.
\<close>

fun min_len :: "re \<Rightarrow> nat" where
  "min_len (Atom p) = 1"
| "min_len Eps = 0"
| "min_len (Seq a b) = min_len a + min_len b"
| "min_len (Alt a b) = min (min_len a) (min_len b)"
| "min_len (Star a) = 0"
| "min_len (Grp n a) = min_len a"
| "min_len WordB = 0"
| "min_len LineStart = 0"

fun gmin_ge :: "nat \<Rightarrow> re \<Rightarrow> nat \<Rightarrow> bool" where
  "gmin_ge k (Atom p) n = True"
| "gmin_ge k Eps n = True"
| "gmin_ge k (Seq a b) n = (gmin_ge k a n \<and> gmin_ge k b n)"
| "gmin_ge k (Alt a b) n = (gmin_ge k a n \<and> gmin_ge k b n)"
| "gmin_ge k (Star a) n = gmin_ge k a n"
| "gmin_ge k (Grp j a) n = ((j \<noteq> n \<or> k \<le> min_len a) \<and> gmin_ge k a n)"
| "gmin_ge k WordB n = True"
| "gmin_ge k LineStart n = True"

text \<open>\<open>occurs_ci m s\<close>: the word \<open>m\<close> occurs in \<open>s\<close> when case is ignored.\<close>

definition occurs_ci :: "string \<Rightarrow> string \<Rightarrow> bool" where
  "occurs_ci m s = (\<exists>pre mid post. s = pre @ mid @ post \<and> map lower mid = m)"

section \<open>Properties of the matcher\<close>

text \<open>
  The equations of the star and of \<open>findall_from\<close> unfold for ever; they are applied by hand.
\<close>

declare ms.simps [simp del]
declare findall_from.simps [simp del]

lemma ms_consumed:
  "t \<in> set (ms r s) \<Longrightarrow> \<exists>w. rest s = w @ rest t \<and> (\<forall>c\<in>set w. alpha r c)"
proof (induction r s arbitrary: t rule: ms.induct)
  case (1 p s)
  show ?case
  proof (cases "rest s")
    case Nil
    then show ?thesis using "1.prems" by (simp add: ms.simps)
  next
    case (Cons c cs)
    with "1.prems" have "p c" "t = MState (Some c) cs (caps s)" by (auto simp: ms.simps split: if_splits)
    with Cons have "rest s = [c] @ rest t \<and> (\<forall>x\<in>set [c]. alpha (Atom p) x)" by simp
    then show ?thesis by blast
  qed
next
  case (2 s)
  then show ?case by (simp add: ms.simps)
next
  case (3 a b s)
  from "3.prems" obtain u where u: "u \<in> set (ms a s)" and t: "t \<in> set (ms b u)"
    by (auto simp: ms.simps)
  from "3.IH"(1)[OF u] obtain w1 where w1: "rest s = w1 @ rest u" "\<forall>c\<in>set w1. alpha a c" by blast
  from "3.IH"(2)[OF u t] obtain w2 where w2: "rest u = w2 @ rest t" "\<forall>c\<in>set w2. alpha b c" by blast
  have "rest s = (w1 @ w2) @ rest t" using w1 w2 by simp
  moreover have "\<forall>c\<in>set (w1 @ w2). alpha (Seq a b) c" using w1 w2 by auto
  ultimately show ?case by blast
next
  case (4 a b s)
  from "4.prems" have "t \<in> set (ms a s) \<or> t \<in> set (ms b s)" by (simp add: ms.simps)
  then show ?case
  proof
    assume "t \<in> set (ms a s)"
    from "4.IH"(1)[OF this] show ?thesis by auto
  next
    assume "t \<in> set (ms b s)"
    from "4.IH"(2)[OF this] show ?thesis by auto
  qed
next
  case (5 a s)
  show ?case
  proof (cases "t = s")
    case True
    then show ?thesis by simp
  next
    case False
    with "5.prems" obtain u where u: "u \<in> set (ms a s)" and lt: "length (rest u) < length (rest s)"
      and t: "t \<in> set (ms (Star a) u)" by (subst (asm) ms.simps) auto
    from "5.IH"(1)[OF u] obtain w1 where w1: "rest s = w1 @ rest u" "\<forall>c\<in>set w1. alpha a c" by blast
    have "u \<in> set (filter (\<lambda>t. length (rest t) < length (rest s)) (ms a s))" using u lt by simp
    from "5.IH"(2)[OF this t] obtain w2 where w2: "rest u = w2 @ rest t" "\<forall>c\<in>set w2. alpha (Star a) c" by blast
    have "rest s = (w1 @ w2) @ rest t" using w1 w2 by simp
    moreover have "\<forall>c\<in>set (w1 @ w2). alpha (Star a) c" using w1 w2 by auto
    ultimately show ?thesis by blast
  qed
next
  case (6 n a s)
  from "6.prems" obtain u where u: "u \<in> set (ms a s)" and t: "rest t = rest u"
    by (auto simp: ms.simps)
  from "6.IH"[OF u] t show ?case by simp
next
  case (7 s)
  then show ?case by (auto simp: ms.simps split: if_splits)
next
  case (8 s)
  then show ?case by (auto simp: ms.simps split: if_splits)
qed

lemma galpha_alpha: "galpha r n c \<Longrightarrow> alpha r c"
  by (induction r) auto

lemma ms_caps:
  "t \<in> set (ms r s) \<Longrightarrow> (n, w) \<in> set (caps t) \<Longrightarrow>
   (n, w) \<in> set (caps s) \<or> (\<forall>c\<in>set w. galpha r n c)"
proof (induction r s arbitrary: t rule: ms.induct)
  case (1 p s)
  show ?case
  proof (cases "rest s")
    case Nil
    then show ?thesis using "1.prems" by (simp add: ms.simps)
  next
    case (Cons c cs)
    with "1.prems" have "caps t = caps s" by (auto simp: ms.simps split: if_splits)
    then show ?thesis using "1.prems"(2) by simp
  qed
next
  case (2 s)
  then show ?case by (simp add: ms.simps)
next
  case (3 a b s)
  from "3.prems" obtain u where u: "u \<in> set (ms a s)" and t: "t \<in> set (ms b u)"
    by (auto simp: ms.simps)
  from "3.IH"(2)[OF u t "3.prems"(2)] "3.IH"(1)[OF u]
  show ?case by auto
next
  case (4 a b s)
  from "4.prems" have "t \<in> set (ms a s) \<or> t \<in> set (ms b s)" by (simp add: ms.simps)
  then show ?case
  proof
    assume "t \<in> set (ms a s)"
    from "4.IH"(1)[OF this "4.prems"(2)] show ?thesis by auto
  next
    assume "t \<in> set (ms b s)"
    from "4.IH"(2)[OF this "4.prems"(2)] show ?thesis by auto
  qed
next
  case (5 a s)
  show ?case
  proof (cases "t = s")
    case True
    then show ?thesis using "5.prems" by simp
  next
    case False
    with "5.prems" obtain u where u: "u \<in> set (ms a s)"
      and lt: "length (rest u) < length (rest s)"
      and t: "t \<in> set (ms (Star a) u)" by (subst (asm) ms.simps) auto
    have "u \<in> set (filter (\<lambda>t. length (rest t) < length (rest s)) (ms a s))"
      using u lt by simp
    from "5.IH"(2)[OF this t "5.prems"(2)] "5.IH"(1)[OF u]
    show ?thesis by auto
  qed
next
  case (6 k a s)
  from "6.prems" obtain u where u: "u \<in> set (ms a s)"
    and t: "t = MState (prev u) (rest u)
                  ((k, take (length (rest s) - length (rest u)) (rest s)) # caps u)"
    by (auto simp: ms.simps)
  from ms_consumed[OF u] obtain v where v: "rest s = v @ rest u" "\<forall>c\<in>set v. alpha a c"
    by blast
  have tk: "take (length (rest s) - length (rest u)) (rest s) = v" using v by simp
  from "6.prems"(2) t tk have "(n, w) = (k, v) \<or> (n, w) \<in> set (caps u)" by auto
  then show ?case using v "6.IH"[OF u] by auto
next
  case (7 s)
  then show ?case by (auto simp: ms.simps split: if_splits)
next
  case (8 s)
  then show ?case by (auto simp: ms.simps split: if_splits)
qed

lemma search_from_match:
  "search_from r p cs = Some m \<Longrightarrow>
   (\<exists>pre. cs = pre @ fst m @ rest (snd m)) \<and> (\<forall>c\<in>set (fst m). alpha r c)
   \<and> (\<forall>n w. (n, w) \<in> set (caps (snd m)) \<longrightarrow> (\<forall>c\<in>set w. galpha r n c))"
proof (induction r p cs rule: search_from.induct)
  case (1 r p)
  then obtain t ts where ms: "ms r (MState p [] []) = t # ts" and m: "m = ([], t)"
    by (auto split: list.splits)
  have tin: "t \<in> set (ms r (MState p [] []))" using ms by simp
  from ms_consumed[OF tin] have "rest t = []" by simp
  then show ?case using m ms_caps[OF tin] by auto
next
  case (2 r p c cs)
  show ?case
  proof (cases "ms r (MState p (c # cs) [])")
    case Nil
    from "2.IH"[OF Nil] "2.prems" Nil obtain pre where
      pre: "cs = pre @ fst m @ rest (snd m)"
      and r: "(\<forall>c\<in>set (fst m). alpha r c)
              \<and> (\<forall>n w. (n, w) \<in> set (caps (snd m)) \<longrightarrow> (\<forall>c\<in>set w. galpha r n c))"
      by auto
    have "c # cs = (c # pre) @ fst m @ rest (snd m)" using pre by simp
    then show ?thesis using r by blast
  next
    case (Cons t ts)
    then have m: "m = (take (length (c # cs) - length (rest t)) (c # cs), t)"
      using "2.prems" by simp
    have tin: "t \<in> set (ms r (MState p (c # cs) []))" using Cons by simp
    from ms_consumed[OF tin] obtain v where v: "c # cs = v @ rest t" "\<forall>c\<in>set v. alpha r c"
      by auto
    have tk: "take (length (c # cs) - length (rest t)) (c # cs) = v"
      by (subst (2) v(1)) (simp add: v(1))
    have "c # cs = [] @ fst m @ rest (snd m)" using m tk v(1) by simp
    then show ?thesis using m tk v ms_caps[OF tin] by auto
  qed
qed

lemma group_of_galpha:
  assumes "search_from r p cs = Some m" "group_of m n = Some w" "n \<noteq> 0"
  shows "\<forall>c\<in>set w. galpha r n c"
proof -
  have "(n, w) \<in> set (caps (snd m))"
    using assms(2,3) by (auto simp: group_of_def dest: map_of_SomeD)
  then show ?thesis using search_from_match[OF assms(1)] by blast
qed

lemma group_of_alpha:
  assumes "search_from r p cs = Some m" "group_of m n = Some w"
  shows "\<forall>c\<in>set w. alpha r c"
proof (cases "n = 0")
  case True
  then show ?thesis using assms search_from_match[OF assms(1)] by (simp add: group_of_def)
next
  case False
  then show ?thesis using group_of_galpha[OF assms False] galpha_alpha by blast
qed

lemma group_text_alpha:
  assumes "search_from r p cs = Some m"
  shows "\<forall>c\<in>set (group_text m n). alpha r c"
proof (cases "group_of m n")
  case None
  then show ?thesis by (simp add: group_text_def)
next
  case (Some w)
  then show ?thesis using group_of_alpha[OF assms Some] by (simp add: group_text_def)
qed

lemma findall_from_None: "search_from r p cs = None \<Longrightarrow> findall_from r p cs = []"
  by (subst findall_from.simps) simp

lemma findall_from_Some:
  "search_from r p cs = Some m \<Longrightarrow>
   findall_from r p cs =
     (if fst m = [] then
        (case rest (snd m) of
           [] \<Rightarrow> [group_text m 1]
         | c # cs' \<Rightarrow>
             if length cs' < length cs then group_text m 1 # findall_from r (Some c) cs'
             else [group_text m 1])
      else if length (rest (snd m)) < length cs
      then group_text m 1 # findall_from r (prev (snd m)) (rest (snd m))
      else [group_text m 1])"
  by (subst findall_from.simps) simp

lemma findall_from_alpha:
  "w \<in> set (findall_from r p cs) \<Longrightarrow> \<forall>c\<in>set w. alpha r c"
proof (induction r p cs rule: findall_from.induct)
  case (1 r p cs)
  show ?case
  proof (cases "search_from r p cs")
    case None
    then show ?thesis using "1.prems" by (simp add: findall_from_None)
  next
    case (Some m)
    note g = group_text_alpha[OF Some, of 1]
    show ?thesis
    proof (cases "fst m = []")
      case True
      show ?thesis
      proof (cases "rest (snd m)")
        case Nil
        then show ?thesis using "1.prems" True g by (simp add: findall_from_Some[OF Some])
      next
        case (Cons c cs')
        show ?thesis
        proof (cases "length cs' < length cs")
          case lt: True
          with "1.prems" True Cons
          have "w = group_text m 1 \<or> w \<in> set (findall_from r (Some c) cs')"
            by (auto simp: findall_from_Some[OF Some])
          then show ?thesis using g "1.IH"(1)[OF Some True Cons lt] by auto
        next
          case False
          then show ?thesis using "1.prems" True Cons g
            by (simp add: findall_from_Some[OF Some])
        qed
      qed
    next
      case ne: False
      show ?thesis
      proof (cases "length (rest (snd m)) < length cs")
        case True
        with "1.prems" ne
        have "w = group_text m 1 \<or> w \<in> set (findall_from r (prev (snd m)) (rest (snd m)))"
          by (auto simp: findall_from_Some[OF Some])
        then show ?thesis using g "1.IH"(2)[OF Some ne True] by auto
      next
        case False
        then show ?thesis using "1.prems" ne g by (simp add: findall_from_Some[OF Some])
      qed
    qed
  qed
qed

lemma ms_caps_keys:
  "t \<in> set (ms r s) \<Longrightarrow> n \<in> fst ` set (caps s) \<Longrightarrow> n \<in> fst ` set (caps t)"
proof (induction r s arbitrary: t rule: ms.induct)
  case (1 p s)
  then show ?case by (cases "rest s") (auto simp: ms.simps split: if_splits)
next
  case (2 s)
  then show ?case by (simp add: ms.simps)
next
  case (3 a b s)
  from "3.prems" obtain u where u: "u \<in> set (ms a s)" and t: "t \<in> set (ms b u)"
    by (auto simp: ms.simps)
  from "3.IH"(1)[OF u "3.prems"(2)] "3.IH"(2)[OF u t] show ?case by blast
next
  case (4 a b s)
  from "4.prems" have "t \<in> set (ms a s) \<or> t \<in> set (ms b s)" by (simp add: ms.simps)
  then show ?case using "4.IH" "4.prems"(2) by blast
next
  case (5 a s)
  show ?case
  proof (cases "t = s")
    case True
    then show ?thesis using "5.prems" by simp
  next
    case False
    with "5.prems" obtain u where u: "u \<in> set (ms a s)"
      and lt: "length (rest u) < length (rest s)"
      and t: "t \<in> set (ms (Star a) u)" by (subst (asm) ms.simps) auto
    have "u \<in> set (filter (\<lambda>t. length (rest t) < length (rest s)) (ms a s))"
      using u lt by simp
    from "5.IH"(2)[OF this t] "5.IH"(1)[OF u "5.prems"(2)] show ?thesis by blast
  qed
next
  case (6 k a s)
  from "6.prems" obtain u where u: "u \<in> set (ms a s)"
    and t: "caps t = (k, take (length (rest s) - length (rest u)) (rest s)) # caps u"
    by (auto simp: ms.simps)
  from "6.IH"[OF u "6.prems"(2)] t show ?case by auto
next
  case (7 s)
  then show ?case by (auto simp: ms.simps split: if_splits)
next
  case (8 s)
  then show ?case by (auto simp: ms.simps split: if_splits)
qed

lemma ms_leading_group:
  assumes "t \<in> set (ms (Seq (Grp k a) b) s)"
  shows "\<exists>w. map_of (caps t) k = Some w"
proof -
  from assms obtain u where u: "u \<in> set (ms (Grp k a) s)" and t: "t \<in> set (ms b u)"
    by (auto simp: ms.simps)
  from u have "k \<in> fst ` set (caps u)" by (auto simp: ms.simps)
  from ms_caps_keys[OF t this] have "k \<in> fst ` set (caps t)" .
  then show ?thesis by (metis map_of_eq_None_iff not_None_eq)
qed

lemma search_from_leading_group:
  "search_from (Seq (Grp k a) b) p cs = Some m \<Longrightarrow> \<exists>w. map_of (caps (snd m)) k = Some w"
proof (induction "Seq (Grp k a) b" p cs rule: search_from.induct)
  case (1 p)
  then obtain t ts where "ms (Seq (Grp k a) b) (MState p [] []) = t # ts" "snd m = t"
    by (auto split: list.splits)
  then have "t \<in> set (ms (Seq (Grp k a) b) (MState p [] []))" by simp
  from ms_leading_group[OF this] \<open>snd m = t\<close> show ?case by simp
next
  case (2 p c cs)
  show ?case
  proof (cases "ms (Seq (Grp k a) b) (MState p (c # cs) [])")
    case Nil
    then show ?thesis using 2 by simp
  next
    case (Cons t ts)
    then have "snd m = t" using "2.prems" by auto
    moreover have "t \<in> set (ms (Seq (Grp k a) b) (MState p (c # cs) []))" using Cons by simp
    ultimately show ?thesis using ms_leading_group by blast
  qed
qed

lemma ms_min_len:
  "t \<in> set (ms r s) \<Longrightarrow> length (rest t) + min_len r \<le> length (rest s)"
proof (induction r s arbitrary: t rule: ms.induct)
  case (1 p s)
  then show ?case by (cases "rest s") (auto simp: ms.simps split: if_splits)
next
  case (2 s)
  then show ?case by (simp add: ms.simps)
next
  case (3 a b s)
  from "3.prems" obtain u where u: "u \<in> set (ms a s)" and t: "t \<in> set (ms b u)"
    by (auto simp: ms.simps)
  from "3.IH"(1)[OF u] "3.IH"(2)[OF u t] show ?case by simp
next
  case (4 a b s)
  from "4.prems" have "t \<in> set (ms a s) \<or> t \<in> set (ms b s)" by (simp add: ms.simps)
  then show ?case
  proof
    assume "t \<in> set (ms a s)"
    from "4.IH"(1)[OF this] show ?thesis by simp
  next
    assume "t \<in> set (ms b s)"
    from "4.IH"(2)[OF this] show ?thesis by simp
  qed
next
  case (5 a s)
  from ms_consumed[OF "5.prems"] show ?case by auto
next
  case (6 n a s)
  from "6.prems" obtain u where u: "u \<in> set (ms a s)" and t: "rest t = rest u"
    by (auto simp: ms.simps)
  from "6.IH"[OF u] t show ?case by simp
next
  case (7 s)
  then show ?case by (auto simp: ms.simps split: if_splits)
next
  case (8 s)
  then show ?case by (auto simp: ms.simps split: if_splits)
qed

lemma ms_caps_len:
  "t \<in> set (ms r s) \<Longrightarrow> (n, w) \<in> set (caps t) \<Longrightarrow> gmin_ge k r n \<Longrightarrow>
   (n, w) \<in> set (caps s) \<or> k \<le> length w"
proof (induction r s arbitrary: t rule: ms.induct)
  case (1 p s)
  show ?case
  proof (cases "rest s")
    case Nil
    then show ?thesis using "1.prems" by (simp add: ms.simps)
  next
    case (Cons c cs)
    with "1.prems" have "caps t = caps s" by (auto simp: ms.simps split: if_splits)
    then show ?thesis using "1.prems"(2) by simp
  qed
next
  case (2 s)
  then show ?case by (simp add: ms.simps)
next
  case (3 a b s)
  from "3.prems" obtain u where u: "u \<in> set (ms a s)" and t: "t \<in> set (ms b u)"
    by (auto simp: ms.simps)
  have ga: "gmin_ge k a n" and gb: "gmin_ge k b n" using "3.prems"(3) by simp_all
  from "3.IH"(2)[OF u t "3.prems"(2) gb] "3.IH"(1)[OF u _ ga] show ?case by auto
next
  case (4 a b s)
  have ga: "gmin_ge k a n" and gb: "gmin_ge k b n" using "4.prems"(3) by simp_all
  from "4.prems" have "t \<in> set (ms a s) \<or> t \<in> set (ms b s)" by (simp add: ms.simps)
  then show ?case
  proof
    assume "t \<in> set (ms a s)"
    from "4.IH"(1)[OF this "4.prems"(2) ga] show ?thesis .
  next
    assume "t \<in> set (ms b s)"
    from "4.IH"(2)[OF this "4.prems"(2) gb] show ?thesis .
  qed
next
  case (5 a s)
  have ga: "gmin_ge k a n" using "5.prems"(3) by simp
  show ?case
  proof (cases "t = s")
    case True
    then show ?thesis using "5.prems" by simp
  next
    case False
    with "5.prems" obtain u where u: "u \<in> set (ms a s)"
      and lt: "length (rest u) < length (rest s)"
      and t: "t \<in> set (ms (Star a) u)" by (subst (asm) ms.simps) auto
    have "u \<in> set (filter (\<lambda>t. length (rest t) < length (rest s)) (ms a s))"
      using u lt by simp
    from "5.IH"(2)[OF this t "5.prems"(2,3)] "5.IH"(1)[OF u _ ga] show ?thesis by auto
  qed
next
  case (6 j a s)
  from "6.prems" obtain u where u: "u \<in> set (ms a s)"
    and t: "t = MState (prev u) (rest u)
                  ((j, take (length (rest s) - length (rest u)) (rest s)) # caps u)"
    by (auto simp: ms.simps)
  have ga: "gmin_ge k a n" and j: "j \<noteq> n \<or> k \<le> min_len a" using "6.prems"(3) by simp_all
  from ms_consumed[OF u] obtain v where v: "rest s = v @ rest u" by blast
  have tk: "take (length (rest s) - length (rest u)) (rest s) = v" using v by simp
  have lv: "min_len a \<le> length v" using ms_min_len[OF u] v by simp
  from "6.prems"(2) t tk have "(n, w) = (j, v) \<or> (n, w) \<in> set (caps u)" by auto
  then show ?case using lv j "6.IH"[OF u _ ga] by auto
next
  case (7 s)
  then show ?case by (auto simp: ms.simps split: if_splits)
next
  case (8 s)
  then show ?case by (auto simp: ms.simps split: if_splits)
qed

lemma group_of_min_len:
  assumes "search_from r p cs = Some m" "group_of m n = Some w" "n \<noteq> 0" "gmin_ge k r n"
  shows "k \<le> length w"
proof -
  have w: "(n, w) \<in> set (caps (snd m))"
    using assms(2,3) by (auto simp: group_of_def dest: map_of_SomeD)
  have "\<exists>q cs'. snd m \<in> set (ms r (MState q cs' []))"
    using assms(1)
  proof (induction r p cs rule: search_from.induct)
    case (1 r p)
    then show ?case by (auto split: list.splits) (metis list.set_intros(1))
  next
    case (2 r p c cs)
    show ?case
    proof (cases "ms r (MState p (c # cs) [])")
      case Nil
      then show ?thesis using 2 by simp
    next
      case (Cons t ts)
      then have "snd m = t" using "2.prems" by auto
      then show ?thesis using Cons by (metis list.set_intros(1))
    qed
  qed
  then obtain q cs' where "snd m \<in> set (ms r (MState q cs' []))" by blast
  from ms_caps_len[OF this w assms(4)] show ?thesis by simp
qed

section \<open>Numbers, amounts and trimmed strings\<close>

lemma num_strip_subset: "set (num_strip s) \<subseteq> set s"
proof -
  have "set (num_strip s) \<subseteq> set (dropWhile num_space s)"
    unfolding num_strip_def using set_dropWhileD[of _ num_space "rev (dropWhile num_space s)"]
    by auto
  then show ?thesis using set_dropWhileD[of _ num_space s] by blast
qed

lemma split_sign_no_minus:
  "CHR ''-'' \<notin> set s \<Longrightarrow> fst (split_sign s) = False \<and> set (snd (split_sign s)) \<subseteq> set s"
  by (auto simp: split_sign_def split: list.splits)

lemma digits_val_foldl_nonneg:
  "0 \<le> a \<Longrightarrow> list_all is_digit s \<Longrightarrow> 0 \<le> foldl (\<lambda>a c. 10 * a + (cp c - 48)) a s"
proof (induction s arbitrary: a)
  case Nil
  then show ?case by simp
next
  case (Cons c s)
  have "0 \<le> 10 * a + (cp c - 48)" using Cons.prems by (simp add: is_digit_def digit_cp_def)
  then show ?case using Cons.IH Cons.prems(2) by simp
qed

lemma digits_val_nonneg: "list_all is_digit s \<Longrightarrow> 0 \<le> digits_val s"
  by (simp add: digits_val_def digits_val_foldl_nonneg)

lemma list_all_takeWhile: "list_all P (takeWhile P xs)"
  by (induction xs) auto

lemma py_float_nonneg:
  assumes "py_float s = Some v" and "CHR ''-'' \<notin> set s"
  shows "0 \<le> v"
proof -
  have "CHR ''-'' \<notin> set (num_strip s)" using assms(2) num_strip_subset by blast
  then have "fst (split_sign (num_strip s)) = False" by (simp add: split_sign_no_minus)
  then obtain u where u: "split_sign (num_strip s) = (False, u)" by (cases "split_sign (num_strip s)") auto
  have ip: "0 \<le> digits_val (takeWhile is_digit u)"
    by (rule digits_val_nonneg[OF list_all_takeWhile])
  have fp: "\<And>fp. list_all is_digit fp \<Longrightarrow> 0 \<le> digits_val (takeWhile is_digit u @ fp)"
    by (rule digits_val_nonneg) (simp add: list_all_takeWhile)
  show ?thesis using assms(1) ip fp unfolding py_float_def u
    by (auto simp: Let_def split: list.splits if_splits)
qed

lemma py_int_nonneg:
  assumes "py_int s = Some v" and "CHR ''-'' \<notin> set s"
  shows "0 \<le> v"
proof -
  have "CHR ''-'' \<notin> set (num_strip s)" using assms(2) num_strip_subset by blast
  then have "fst (split_sign (num_strip s)) = False" by (simp add: split_sign_no_minus)
  then obtain u where u: "split_sign (num_strip s) = (False, u)" by (cases "split_sign (num_strip s)") auto
  show ?thesis using assms(1) digits_val_nonneg unfolding py_int_def u
    by (auto split: if_splits)
qed

lemma remove_char_subset: "set (remove_char c s) \<subseteq> set s"
  by (auto simp: remove_char_def)

lemma no_minus_total1: "\<not> alpha total_pattern1 CHR ''-''" by code_simp
lemma no_minus_total2: "\<not> alpha total_pattern2 CHR ''-''" by code_simp
lemma no_minus_total3: "\<not> alpha total_pattern3 CHR ''-''" by code_simp
lemma no_minus_amount: "\<not> alpha amount_pattern CHR ''-''" by code_simp
lemma no_minus_item: "\<not> alpha item_pattern CHR ''-''" by code_simp

lemma parse_total_loop_nonneg:
  "parse_total_loop ps tx = Inr (Some v) \<Longrightarrow> \<forall>p. Inr p \<in> set ps \<longrightarrow> \<not> alpha p CHR ''-'' \<Longrightarrow> 0 \<le> v"
proof (induction ps tx rule: parse_total_loop.induct)
  case (1 tx)
  then show ?case by simp
next
  case (2 e ps tx)
  then show ?case by simp
next
  case (3 p ps tx)
  have np: "\<not> alpha p CHR ''-''" using "3.prems"(2) by simp
  have rest: "\<forall>q. Inr q \<in> set ps \<longrightarrow> \<not> alpha q CHR ''-''" using "3.prems"(2) by simp
  show ?case
  proof (cases "re_search p tx")
    case None
    then show ?thesis using 3 rest by simp
  next
    case (Some m)
    show ?thesis
    proof (cases "group_of m 1")
      case None
      then show ?thesis using Some "3.prems" by simp
    next
      case g: (Some g)
      have "\<forall>c\<in>set g. alpha p c" using group_of_alpha[OF Some[unfolded re_search_def] g] .
      then have "CHR ''-'' \<notin> set g" using np by auto
      then have nm: "CHR ''-'' \<notin> set (remove_char CHR '','' g)" using remove_char_subset by fast
      show ?thesis
      proof (cases "py_float (remove_char CHR '','' g)")
        case None
        then show ?thesis using Some g "3.prems"(1) "3.IH"(2)[OF Some g None _ rest] by simp
      next
        case f: (Some x)
        then have "v = x" using Some g "3.prems"(1) by simp
        then show ?thesis using py_float_nonneg[OF f nm] by simp
      qed
    qed
  qed
qed

lemma total_fallback_nonneg: "total_fallback text = Inr v \<Longrightarrow> 0 \<le> v"
proof -
  assume a: "total_fallback text = Inr v"
  show ?thesis
  proof (cases "re_findall amount_pattern text = []")
    case True
    then show ?thesis using a by (simp add: total_fallback_def)
  next
    case False
    define g where "g = last (re_findall amount_pattern text)"
    have "g \<in> set (re_findall amount_pattern text)" using False by (simp add: g_def)
    moreover from a False obtain x where
      x: "py_float (remove_char CHR '','' g) = Some x" and v: "v = x"
      by (auto simp: total_fallback_def Let_def g_def split: option.splits)
    ultimately have "\<forall>c\<in>set g. alpha amount_pattern c"
      using findall_from_alpha[of g amount_pattern None "text"] by (simp add: re_findall_def)
    then have "CHR ''-'' \<notin> set g" using no_minus_amount by auto
    then have "CHR ''-'' \<notin> set (remove_char CHR '','' g)" using remove_char_subset by fast
    then show ?thesis using py_float_nonneg[OF x] v by simp
  qed
qed

lemma parse_total_nonneg: "parse_total strict text = Inr v \<Longrightarrow> 0 \<le> v"
proof -
  assume a: "parse_total strict text = Inr v"
  have ok: "\<forall>p. Inr p \<in> set (total_patterns strict) \<longrightarrow> \<not> alpha p CHR ''-''"
    using no_minus_total1 no_minus_total2 no_minus_total3 by (auto simp: total_patterns_def)
  show ?thesis
  proof (cases "parse_total_loop (total_patterns strict) text")
    case (Inl e)
    then show ?thesis using a by (simp add: parse_total_def)
  next
    case (Inr r)
    show ?thesis
    proof (cases r)
      case None
      then show ?thesis using a Inr total_fallback_nonneg by (simp add: parse_total_def)
    next
      case (Some x)
      then show ?thesis using a Inr parse_total_loop_nonneg[OF _ ok, of "text" x] by (simp add: parse_total_def)
    qed
  qed
qed

lemma dropWhile_idem: "dropWhile P (dropWhile P xs) = dropWhile P xs"
  by (induction xs) auto

lemma dropWhile_hd: "xs \<noteq> [] \<Longrightarrow> \<not> P (hd xs) \<Longrightarrow> dropWhile P xs = xs"
  by (cases xs) auto

lemma hd_dropWhile_not: "dropWhile P xs \<noteq> [] \<Longrightarrow> \<not> P (hd (dropWhile P xs))"
  using hd_dropWhile by blast

lemma dropWhile_trim_right:
  assumes "u = [] \<or> \<not> P (hd u)"
  shows "dropWhile P (rev (dropWhile P (rev u))) = rev (dropWhile P (rev u))"
proof (cases "dropWhile P (rev u) = []")
  case True
  then show ?thesis by (simp only: rev.simps dropWhile.simps)
next
  case False
  have "rev u = takeWhile P (rev u) @ dropWhile P (rev u)" by simp
  then have "u = rev (dropWhile P (rev u)) @ rev (takeWhile P (rev u))"
    by (metis rev_append rev_rev_ident)
  then have "hd u = hd (rev (dropWhile P (rev u)))" using False
    by (metis hd_append2 rev_is_Nil_conv)
  moreover have "u \<noteq> []" using False by auto
  ultimately have "\<not> P (hd (rev (dropWhile P (rev u))))" using assms by auto
  then show ?thesis using False by (simp add: dropWhile_hd)
qed

lemma strip_idem: "strip (strip s) = strip s"
proof -
  let ?u = "dropWhile is_space s"
  have u: "?u = [] \<or> \<not> is_space (hd ?u)" using hd_dropWhile_not by blast
  have "dropWhile is_space (strip s) = strip s"
    unfolding strip_def using dropWhile_trim_right[of ?u is_space, OF u] .
  then show ?thesis by (simp add: strip_def dropWhile_idem)
qed

lemma digit_chars: "map char_of [48 :: int, 49, 50, 51, 52, 53, 54, 55, 56, 57] = ''0123456789''"
  by code_simp

lemma is_digit_cases: "is_digit c \<Longrightarrow> c \<in> set ''0123456789''"
proof -
  assume "is_digit c"
  then have r: "48 \<le> (of_char c :: int)" "(of_char c :: int) \<le> 57"
    by (simp_all add: is_digit_def digit_cp_def cp_def)
  then have "(of_char c :: int) = 48 \<or> (of_char c :: int) = 49 \<or> (of_char c :: int) = 50
      \<or> (of_char c :: int) = 51 \<or> (of_char c :: int) = 52 \<or> (of_char c :: int) = 53
      \<or> (of_char c :: int) = 54 \<or> (of_char c :: int) = 55 \<or> (of_char c :: int) = 56
      \<or> (of_char c :: int) = 57" by presburger
  then have "(of_char c :: int) \<in> {48, 49, 50, 51, 52, 53, 54, 55, 56, 57}" by blast
  then have "c \<in> char_of ` set [48 :: int, 49, 50, 51, 52, 53, 54, 55, 56, 57]"
    by (metis char_of_char image_eqI list.set(1) list.set(2))
  then have "c \<in> set (map char_of [48 :: int, 49, 50, 51, 52, 53, 54, 55, 56, 57])"
    by (simp only: set_map)
  then show ?thesis by (simp only: digit_chars)
qed

lemma split_sign_subset: "set (snd (split_sign s)) \<subseteq> set s"
  by (auto simp: split_sign_def split: list.splits)

lemma py_float_needs_digit:
  assumes "\<forall>c\<in>set s. \<not> is_digit c \<and> c \<noteq> CHR ''.''"
  shows "py_float s = None"
proof -
  obtain neg u where su: "split_sign (num_strip s) = (neg, u)" by (cases "split_sign (num_strip s)")
  have "set u \<subseteq> set (num_strip s)"
    using split_sign_subset[of "num_strip s"] su by simp
  then have u: "\<forall>c\<in>set u. \<not> is_digit c \<and> c \<noteq> CHR ''.''"
    using assms num_strip_subset by blast
  have tw: "takeWhile is_digit u = []" using u by (cases u) auto
  have dw: "dropWhile is_digit u = u" using u by (cases u) auto
  show ?thesis unfolding py_float_def su using tw dw u
    by (cases u) (auto simp: Let_def)
qed

lemma space_chars:
  "map char_of [9 :: int, 10, 11, 12, 13, 28, 29, 30, 31, 32, 133, 160] =
     [CHR 0x09, CHR 0x0A, CHR 0x0B, CHR 0x0C, CHR 0x0D, CHR 0x1C, CHR 0x1D, CHR 0x1E, CHR 0x1F,
      CHR 0x20, CHR 0x85, CHR 0xA0]"
  by code_simp

lemma is_space_cases:
  "is_space c \<Longrightarrow>
   c \<in> set [CHR 0x09, CHR 0x0A, CHR 0x0B, CHR 0x0C, CHR 0x0D, CHR 0x1C, CHR 0x1D, CHR 0x1E,
             CHR 0x1F, CHR 0x20, CHR 0x85, CHR 0xA0]"
proof -
  assume "is_space c"
  then have "(of_char c :: int) = 9 \<or> (of_char c :: int) = 10 \<or> (of_char c :: int) = 11
      \<or> (of_char c :: int) = 12 \<or> (of_char c :: int) = 13 \<or> (of_char c :: int) = 28
      \<or> (of_char c :: int) = 29 \<or> (of_char c :: int) = 30 \<or> (of_char c :: int) = 31
      \<or> (of_char c :: int) = 32 \<or> (of_char c :: int) = 133 \<or> (of_char c :: int) = 160"
    unfolding is_space_def space_cp_def cp_def by presburger
  then have "(of_char c :: int) \<in> set [9, 10, 11, 12, 13, 28, 29, 30, 31, 32, 133, 160]"
    by auto
  then have "c \<in> char_of ` set [9 :: int, 10, 11, 12, 13, 28, 29, 30, 31, 32, 133, 160]"
    by (metis char_of_char image_eqI)
  then have "c \<in> set (map char_of [9 :: int, 10, 11, 12, 13, 28, 29, 30, 31, 32, 133, 160])"
    by (simp only: set_map)
  then show ?thesis by (simp only: space_chars)
qed

lemma strip_no_space: "\<forall>c\<in>set s. \<not> is_space c \<Longrightarrow> strip s = s"
proof -
  assume a: "\<forall>c\<in>set s. \<not> is_space c"
  have 1: "dropWhile is_space s = s" using a by (cases s) auto
  have "\<forall>c\<in>set (rev s). \<not> is_space c" using a by simp
  then have 2: "dropWhile is_space (rev s) = rev s" by (cases "rev s") auto
  show ?thesis by (simp add: strip_def 1 2)
qed

section \<open>The payment method\<close>

lemma startswith_iff: "startswith s p = (\<exists>post. s = p @ post)"
proof
  assume "startswith s p"
  then have "s = p @ drop (length p) s" unfolding startswith_def by (metis append_take_drop_id)
  then show "\<exists>post. s = p @ post" ..
next
  assume "\<exists>post. s = p @ post"
  then show "startswith s p" by (auto simp: startswith_def)
qed

lemma str_in_iff: "str_in m s = (\<exists>pre post. s = pre @ m @ post)"
proof (induction s)
  case Nil
  then show ?case by auto
next
  case (Cons c cs)
  show ?case
  proof
    assume "str_in m (c # cs)"
    then consider "startswith (c # cs) m" | "str_in m cs" by auto
    then show "\<exists>pre post. c # cs = pre @ m @ post"
    proof cases
      case 1
      then obtain post where "c # cs = m @ post" using startswith_iff by blast
      then have "c # cs = [] @ m @ post" by simp
      then show ?thesis by blast
    next
      case 2
      then obtain pre post where "cs = pre @ m @ post" using Cons.IH by blast
      then have "c # cs = (c # pre) @ m @ post" by simp
      then show ?thesis by blast
    qed
  next
    assume "\<exists>pre post. c # cs = pre @ m @ post"
    then obtain pre post where e: "c # cs = pre @ m @ post" by blast
    show "str_in m (c # cs)"
    proof (cases pre)
      case Nil
      then have "startswith (c # cs) m" using e startswith_iff by auto
      then show ?thesis by simp
    next
      case (Cons a pre')
      then have "cs = pre' @ m @ post" using e by simp
      then have "str_in m cs" using Cons.IH by blast
      then show ?thesis by simp
    qed
  qed
qed

lemma occurs_ci_str_in: "occurs_ci m s = str_in m (map lower s)"
proof
  assume "occurs_ci m s"
  then obtain pre mid post where "s = pre @ mid @ post" "map lower mid = m"
    unfolding occurs_ci_def by blast
  then have "map lower s = map lower pre @ m @ map lower post" by simp
  then show "str_in m (map lower s)" using str_in_iff by blast
next
  assume "str_in m (map lower s)"
  then obtain a b where ab: "map lower s = a @ m @ b" using str_in_iff by blast
  then obtain pre r where pre: "s = pre @ r" "map lower pre = a" "map lower r = m @ b"
    by (metis map_eq_append_conv)
  then obtain mid post where mid: "r = mid @ post" "map lower mid = m" "map lower post = b"
    by (metis map_eq_append_conv)
  show "occurs_ci m s" unfolding occurs_ci_def using pre(1) mid(1,2) by blast
qed

lemma payment_loop_none:
  "\<forall>m\<in>set vs. \<not> str_in m l \<Longrightarrow> payment_loop vs l = ''Unknown''"
  by (induction vs) auto

lemma payment_loop_first:
  "i < length vs \<Longrightarrow> str_in (vs ! i) l \<Longrightarrow> \<forall>j<i. \<not> str_in (vs ! j) l \<Longrightarrow>
   payment_loop vs l = capitalize (vs ! i)"
proof (induction vs arbitrary: i)
  case Nil
  then show ?case by simp
next
  case (Cons m vs)
  show ?case
  proof (cases i)
    case 0
    then show ?thesis using Cons.prems by simp
  next
    case (Suc k)
    have nm: "\<not> str_in m l" using Cons.prems(3) Suc by auto
    have "payment_loop vs l = capitalize (vs ! k)"
    proof (rule Cons.IH)
      show "k < length vs" using Cons.prems(1) Suc by simp
      show "str_in (vs ! k) l" using Cons.prems(2) Suc by simp
      show "\<forall>j<k. \<not> str_in (vs ! j) l"
      proof (intro allI impI)
        fix j assume "j < k"
        then have "Suc j < i" using Suc by simp
        then have "\<not> str_in ((m # vs) ! Suc j) l" using Cons.prems(3) by blast
        then show "\<not> str_in (vs ! j) l" by simp
      qed
    qed
    then show ?thesis using nm Suc by simp
  qed
qed

lemma methods_capitalized:
  "map capitalize methods =
     [''Cash'', ''Credit'', ''Debit'', ''Visa'', ''Mastercard'', ''Amex'', ''Discover'',
      ''Paypal'', ''Venmo'', ''Apple pay'', ''Google pay'', ''Mobile pay'']"
  by code_simp

text \<open>
  Claim C9. \<^verbatim>\<open>parse_payment_method\<close> returns the first word of the vocabulary, in the
  declared order, that occurs in the text when case is ignored, with its first letter in
  upper case, and \<open>''Unknown''\<close> when none occurs; a text with both \<open>visa\<close> and \<open>cash\<close>
  gives \<open>''Cash''\<close>.
\<close>

theorem parse_payment_method_vocabulary_order:
  "((\<forall>m\<in>set methods. \<not> occurs_ci m text) \<longrightarrow> parse_payment_method text = ''Unknown'')
   \<and> (\<forall>i<length methods.
         occurs_ci (methods ! i) text \<and> (\<forall>j<i. \<not> occurs_ci (methods ! j) text)
         \<longrightarrow> parse_payment_method text = capitalize (methods ! i))
   \<and> (occurs_ci ''visa'' text \<and> occurs_ci ''cash'' text
         \<longrightarrow> parse_payment_method text = ''Cash'')
   \<and> map capitalize methods =
        [''Cash'', ''Credit'', ''Debit'', ''Visa'', ''Mastercard'', ''Amex'', ''Discover'',
         ''Paypal'', ''Venmo'', ''Apple pay'', ''Google pay'', ''Mobile pay'']"
proof (intro conjI impI allI)
  assume "\<forall>m\<in>set methods. \<not> occurs_ci m text"
  then show "parse_payment_method text = ''Unknown''"
    unfolding parse_payment_method_def by (simp add: occurs_ci_str_in payment_loop_none)
next
  fix i
  assume "i < length methods"
    and "occurs_ci (methods ! i) text \<and> (\<forall>j<i. \<not> occurs_ci (methods ! j) text)"
  then show "parse_payment_method text = capitalize (methods ! i)"
    unfolding parse_payment_method_def by (simp add: occurs_ci_str_in payment_loop_first)
next
  assume a: "occurs_ci ''visa'' text \<and> occurs_ci ''cash'' text"
  have c: "capitalize ''cash'' = ''Cash''" by code_simp
  have "str_in ''cash'' (map lower text)" using a by (simp add: occurs_ci_str_in)
  then have "payment_loop methods (map lower text) = capitalize ''cash''"
    by (simp add: methods_def)
  then show "parse_payment_method text = ''Cash''"
    unfolding parse_payment_method_def using c by simp
next
  show "map capitalize methods =
        [''Cash'', ''Credit'', ''Debit'', ''Visa'', ''Mastercard'', ''Amex'', ''Discover'',
         ''Paypal'', ''Venmo'', ''Apple pay'', ''Google pay'', ''Mobile pay'']"
    by (rule methods_capitalized)
qed

theorem parse_payment_method_vocabulary_order_witness:
  "parse_payment_method ''paid in cash, not VISA'' = ''Cash''
   \<and> parse_payment_method ''Visa 1234'' = capitalize (methods ! 3)
   \<and> parse_payment_method ''cheque'' = ''Unknown''"
proof -
  have v: "occurs_ci ''visa'' ''paid in cash, not VISA''" unfolding occurs_ci_str_in by code_simp
  have c: "occurs_ci ''cash'' ''paid in cash, not VISA''" unfolding occurs_ci_str_in by code_simp
  have 1: "parse_payment_method ''paid in cash, not VISA'' = ''Cash''"
    using parse_payment_method_vocabulary_order[of "''paid in cash, not VISA''"] v c by blast
  have i: "(3::nat) < length methods" by code_simp
  have o: "occurs_ci (methods ! 3) ''Visa 1234''" unfolding occurs_ci_str_in by code_simp
  have n: "\<forall>j<3. \<not> occurs_ci (methods ! j) ''Visa 1234''"
  proof (intro allI impI)
    fix j :: nat assume "j < 3"
    then consider "j = 0" | "j = 1" | "j = 2" by linarith
    then show "\<not> occurs_ci (methods ! j) ''Visa 1234''"
    proof cases
      case 1
      have "\<not> occurs_ci (methods ! 0) ''Visa 1234''" unfolding occurs_ci_str_in by code_simp
      then show ?thesis using 1 by simp
    next
      case 2
      have "\<not> occurs_ci (methods ! 1) ''Visa 1234''" unfolding occurs_ci_str_in by code_simp
      then show ?thesis using 2 by simp
    next
      case 3
      have "\<not> occurs_ci (methods ! 2) ''Visa 1234''" unfolding occurs_ci_str_in by code_simp
      then show ?thesis using 3 by simp
    qed
  qed
  have 2: "parse_payment_method ''Visa 1234'' = capitalize (methods ! 3)"
    using parse_payment_method_vocabulary_order[of "''Visa 1234''"] i o n by blast
  have u: "\<forall>m\<in>set methods. \<not> occurs_ci m ''cheque''" unfolding occurs_ci_str_in by code_simp
  have 3: "parse_payment_method ''cheque'' = ''Unknown''"
    using parse_payment_method_vocabulary_order[of "''cheque''"] u by blast
  show ?thesis using 1 2 3 by simp
qed

section \<open>The assembled record\<close>

text \<open>
  Claim C1. For every outcome of the acquisition and every text, \<^verbatim>\<open>process_receipt\<close>
  returns a record with all fields: either the record of the \<^verbatim>\<open>except\<close> branch (the
  error set, vendor and payment method \<open>''Unknown''\<close>, the current date, total 0, no
  items, empty raw text, confidence 0.5), or the record built from the five extractors,
  all of which returned. No raise of an extractor leaves the method.
\<close>

theorem process_receipt_returns_a_record:
  "(\<exists>e. process_receipt strict today acquired =
          \<lparr>error = Some e, vendor = ''Unknown'', date = today, total = 0,
           payment_method = ''Unknown'', currency = ''USD'', raw_text = [],
           confidence = 1 / 2, items = []\<rparr>)
   \<or> (\<exists>tx v d t its.
         acquired = Inr tx \<and> parse_vendor tx = Inr v \<and> parse_date tx = Inr d
         \<and> parse_total strict tx = Inr t \<and> parse_items tx = Inr its
         \<and> process_receipt strict today acquired =
             \<lparr>error = None, vendor = v,
              date = (case d of None \<Rightarrow> today | Some x \<Rightarrow> if x = [] then today else x),
              total = t, payment_method = parse_payment_method tx, currency = ''USD'',
              raw_text = tx, confidence = (if its = [] then 85 / 100 else 95 / 100),
              items = its\<rparr>)"
  by (auto simp: process_receipt_def error_record_def split: sum.splits)

text \<open>
  Claim C6. In every returned record the total is not negative and the confidence lies
  between 0 and 1; without an error the confidence is 0.95 when there are items and 0.85
  when there are none, and with an error it is 0.5.
\<close>

theorem total_and_confidence_bounds:
  "0 \<le> total (process_receipt strict today acquired)
   \<and> 0 \<le> confidence (process_receipt strict today acquired)
   \<and> confidence (process_receipt strict today acquired) \<le> 1
   \<and> (error (process_receipt strict today acquired) = None \<longrightarrow>
        confidence (process_receipt strict today acquired) =
          (if items (process_receipt strict today acquired) = [] then 85 / 100 else 95 / 100))
   \<and> (error (process_receipt strict today acquired) \<noteq> None \<longrightarrow>
        confidence (process_receipt strict today acquired) = 5 / 10)"
  using parse_total_nonneg[of strict _ _]
  by (auto simp: process_receipt_def error_record_def split: sum.splits)

text \<open>
  Witness for C6: a text with one item line, a text with a total and no item line, and
  the same text when the third total pattern is rejected.
\<close>

theorem total_and_confidence_bounds_witness:
  "error (process_receipt False ''2026-11-03'' (Inr ''Tea 1 @ $2.00 $2.00'')) = None
   \<and> items (process_receipt False ''2026-11-03'' (Inr ''Tea 1 @ $2.00 $2.00'')) \<noteq> []
   \<and> confidence (process_receipt False ''2026-11-03'' (Inr ''Tea 1 @ $2.00 $2.00'')) = 95 / 100
   \<and> error (process_receipt False ''2026-11-03'' (Inr ''Total: $45.67'')) = None
   \<and> items (process_receipt False ''2026-11-03'' (Inr ''Total: $45.67'')) = []
   \<and> confidence (process_receipt False ''2026-11-03'' (Inr ''Total: $45.67'')) = 85 / 100
   \<and> error (process_receipt True ''2026-11-03'' (Inr ''Total: $45.67'')) \<noteq> None
   \<and> confidence (process_receipt True ''2026-11-03'' (Inr ''Total: $45.67'')) = 5 / 10"
proof -
  let ?a = "process_receipt False ''2026-11-03'' (Inr ''Tea 1 @ $2.00 $2.00'')"
  let ?b = "process_receipt False ''2026-11-03'' (Inr ''Total: $45.67'')"
  let ?c = "process_receipt True ''2026-11-03'' (Inr ''Total: $45.67'')"
  have a: "error ?a = None \<and> items ?a \<noteq> []" by code_simp
  have b: "error ?b = None \<and> items ?b = []" by code_simp
  have c: "error ?c \<noteq> None" by code_simp
  have "confidence ?a = 95 / 100"
    using total_and_confidence_bounds[of False "''2026-11-03''" "Inr ''Tea 1 @ $2.00 $2.00''"] a
    by simp
  moreover have "confidence ?b = 85 / 100"
    using total_and_confidence_bounds[of False "''2026-11-03''" "Inr ''Total: $45.67''"] b
    by simp
  moreover have "confidence ?c = 5 / 10"
    using total_and_confidence_bounds[of True "''2026-11-03''" "Inr ''Total: $45.67''"] c
    by simp
  ultimately show ?thesis using a b c by simp
qed

section \<open>Line items\<close>

lemma parse_item_line_fields:
  assumes "parse_item_line l = Inr (Some it)"
  shows "strip (description it) = description it \<and> 0 \<le> quantity it \<and> 0 \<le> unit_price it
         \<and> 0 \<le> total_price it \<and> category it = ''general''"
proof -
  from assms obtain m g1 g2 g3 g4 q u t where
    m: "search_from item_pattern None l = Some m"
    and g: "group_of m 1 = Some g1" "group_of m 2 = Some g2" "group_of m 3 = Some g3"
           "group_of m 4 = Some g4"
    and q: "py_int g2 = Some q" and u: "price_of g3 = Some u" and t: "price_of g4 = Some t"
    and it: "it = \<lparr>description = strip g1, quantity = q, unit_price = u, total_price = t,
                    category = ''general''\<rparr>"
    unfolding parse_item_line_def re_search_def
    by (auto split: option.splits)
  have nm: "\<And>n w. group_of m n = Some w \<Longrightarrow> CHR ''-'' \<notin> set w"
    using group_of_alpha[OF m] no_minus_item by blast
  have "0 \<le> q" using py_int_nonneg[OF q] nm[OF g(2)] by simp
  moreover have "0 \<le> u"
    using py_float_nonneg[OF u[unfolded price_of_def]] nm[OF g(3)] by (simp add: remove_char_def)
  moreover have "0 \<le> t"
    using py_float_nonneg[OF t[unfolded price_of_def]] nm[OF g(4)] by (simp add: remove_char_def)
  ultimately show ?thesis using it by (simp add: strip_idem)
qed

lemma items_loop_invariant:
  "items_loop ls acc = Inr its \<Longrightarrow> \<forall>x\<in>set acc. P x \<Longrightarrow>
   (\<And>l x. parse_item_line l = Inr (Some x) \<Longrightarrow> P x) \<Longrightarrow> \<forall>x\<in>set its. P x"
proof (induction ls arbitrary: acc)
  case Nil
  then show ?case by simp
next
  case (Cons l ls)
  show ?case
  proof (cases "parse_item_line l")
    case (Inl e)
    then show ?thesis using Cons.prems(1) by simp
  next
    case (Inr r)
    show ?thesis
    proof (cases r)
      case None
      then show ?thesis using Inr Cons by simp
    next
      case (Some x)
      have px: "P x" using Cons.prems(3) Inr Some by simp
      have "items_loop ls (acc @ [x]) = Inr its" using Cons.prems(1) Inr Some by simp
      moreover have "\<forall>y\<in>set (acc @ [x]). P y" using Cons.prems(2) px by simp
      ultimately show ?thesis using Cons.IH Cons.prems(3) by blast
    qed
  qed
qed

text \<open>
  Claim C5, as amended. Every item that \<^verbatim>\<open>parse_items\<close> returns has a description
  that is trimmed (it may be empty), a quantity that is not negative (it may be 0), a
  unit price and a total price that are not negative, and the category \<open>''general''\<close>.
\<close>

theorem line_item_fields:
  assumes "parse_items tx = Inr its" and "it \<in> set its"
  shows "strip (description it) = description it \<and> 0 \<le> quantity it \<and> 0 \<le> unit_price it
         \<and> 0 \<le> total_price it \<and> category it = ''general''"
proof -
  have "\<forall>x\<in>set its. strip (description x) = description x \<and> 0 \<le> quantity x
          \<and> 0 \<le> unit_price x \<and> 0 \<le> total_price x \<and> category x = ''general''"
    by (rule items_loop_invariant[OF assms(1)[unfolded parse_items_def]])
       (simp_all add: parse_item_line_fields)
  then show ?thesis using assms(2) by blast
qed

text \<open>
  Counterexample to C5 as stated: a line whose description is blank and whose quantity
  is 0 gives an item with an empty description and quantity 0.
\<close>

theorem zero_quantity_item_counterexample:
  "parse_items ''  0 @ $1.00 $1.00'' =
     Inr [\<lparr>description = [], quantity = 0, unit_price = 1, total_price = 1,
           category = ''general''\<rparr>]"
  by code_simp

text \<open>
  Witness for C5: the item of one line.
\<close>

theorem line_item_fields_witness:
  "parse_items ''Tea 1 @ $2.00 $2.50'' =
     Inr [\<lparr>description = ''Tea'', quantity = 1, unit_price = 2, total_price = 5 / 2,
           category = ''general''\<rparr>]
   \<and> strip ''Tea'' = ''Tea'' \<and> (0::int) \<le> 1 \<and> (0::rat) \<le> 2 \<and> (0::rat) \<le> 5 / 2"
proof -
  let ?it = "\<lparr>description = ''Tea'', quantity = 1, unit_price = 2, total_price = 5 / 2,
              category = ''general''\<rparr>"
  have e: "parse_items ''Tea 1 @ $2.00 $2.50'' = Inr [?it]" by code_simp
  have "?it \<in> set [?it]" by simp
  from line_item_fields[OF e this] e show ?thesis by simp
qed

lemma items_loop_acc:
  "items_loop ls acc = (case items_loop ls [] of Inl e \<Rightarrow> Inl e | Inr xs \<Rightarrow> Inr (acc @ xs))"
proof (induction ls arbitrary: acc)
  case Nil
  then show ?case by simp
next
  case (Cons l ls)
  show ?case
  proof (cases "parse_item_line l")
    case (Inl e)
    then show ?thesis by simp
  next
    case (Inr r)
    show ?thesis
    proof (cases r)
      case None
      then show ?thesis using Inr Cons.IH[of acc] by simp
    next
      case (Some x)
      then show ?thesis using Inr Cons.IH[of "acc @ [x]"] Cons.IH[of "[x]"]
        by (simp split: sum.splits)
    qed
  qed
qed

lemma items_loop_append:
  "items_loop (a @ b) acc =
     (case items_loop a acc of Inl e \<Rightarrow> Inl e | Inr xs \<Rightarrow> items_loop b xs)"
proof (induction a arbitrary: acc)
  case Nil
  then show ?case by simp
next
  case (Cons l ls)
  then show ?case by (simp split: sum.splits option.splits)
qed

lemma parse_coffee_line:
  "parse_item_line ''Coffee 2 @ $3.50 $7.00'' =
     Inr (Some \<lparr>description = ''Coffee'', quantity = 2, unit_price = 35 / 10,
                 total_price = 7, category = ''general''\<rparr>)"
  by code_simp

text \<open>
  The line \<open>Coffee 2 @ $3.50 $7.00\<close> gives exactly one item, and where the other lines do
  not raise, \<^verbatim>\<open>parse_items\<close> returns it between the items of the lines before and
  those of the lines after.
\<close>

lemma coffee_line_gives_one_item:
  assumes "split_nl tx = before @ [''Coffee 2 @ $3.50 $7.00''] @ after"
  shows "parse_items tx =
           (case items_loop before [] of
              Inl e \<Rightarrow> Inl e
            | Inr xs \<Rightarrow>
                (case items_loop after [] of
                   Inl e \<Rightarrow> Inl e
                 | Inr ys \<Rightarrow>
                     Inr (xs @ [\<lparr>description = ''Coffee'', quantity = 2, unit_price = 35 / 10,
                                  total_price = 7, category = ''general''\<rparr>] @ ys)))"
proof -
  let ?line = "''Coffee 2 @ $3.50 $7.00''"
  let ?item = "\<lparr>description = ''Coffee'', quantity = 2, unit_price = 35 / 10,
                total_price = 7, category = ''general''\<rparr>"
  have "parse_items tx = items_loop (before @ [?line] @ after) []"
    using assms by (simp add: parse_items_def)
  also have "\<dots> = (case items_loop before [] of Inl e \<Rightarrow> Inl e
                    | Inr xs \<Rightarrow> items_loop after (xs @ [?item]))"
    by (simp add: items_loop_append parse_coffee_line split: sum.splits)
  also have "\<dots> = (case items_loop before [] of Inl e \<Rightarrow> Inl e
                    | Inr xs \<Rightarrow> (case items_loop after [] of Inl e \<Rightarrow> Inl e
                                | Inr ys \<Rightarrow> Inr (xs @ [?item] @ ys)))"
    by (subst items_loop_acc) (simp split: sum.splits)
  finally show ?thesis .
qed

text \<open>
  Claim C8 fails on the code. The text below contains the line
  \<open>Coffee 2 @ $3.50 $7.00\<close>, which alone gives the item of the claim; its second line
  has a price with the symbol U+00AC of the currency class, \<^verbatim>\<open>float\<close> rejects it,
  nothing catches the ValueError, and \<^verbatim>\<open>parse_items\<close> returns no list at all.
\<close>

theorem coffee_item_lost_to_raise:
  "parse_items ''Coffee 2 @ $3.50 $7.00'' =
     Inr [\<lparr>description = ''Coffee'', quantity = 2, unit_price = 35 / 10, total_price = 7,
           category = ''general''\<rparr>]
   \<and> parse_items (''Coffee 2 @ $3.50 $7.00'' @ [CHR 0x0A] @ ''Tea 1 @ '' @ [CHR 0xAC]
                    @ ''1.00 $1.00'') = Inl ValueError"
  by code_simp

section \<open>Dates\<close>

lemma ms_Seq_split:
  "t \<in> set (ms (Seq a b) s) \<Longrightarrow> \<exists>u\<in>set (ms a s). t \<in> set (ms b u)"
  by (auto simp: ms.simps)

lemma ms_Atom_step:
  "t \<in> set (ms (Atom p) s) \<Longrightarrow> \<exists>c. rest s = c # rest t \<and> p c"
  by (cases "rest s") (auto simp: ms.simps split: if_splits)

lemma ms_Grp_rest:
  "t \<in> set (ms (Grp n a) s) \<Longrightarrow> \<exists>u\<in>set (ms a s). rest t = rest u"
  by (auto simp: ms.simps)

lemma four_digits_consumed:
  assumes "t \<in> set (ms (item_re DY) s)"
  shows "\<exists>a b c d. rest s = [a, b, c, d] @ rest t \<and> is_digit a \<and> is_digit b \<and> is_digit c
           \<and> is_digit d"
proof -
  from assms obtain u where u: "u \<in> set (ms (Seq r_digit (Seq r_digit (Seq r_digit r_digit))) s)"
    and r: "rest t = rest u"
    using ms_Grp_rest by (fastforce simp: )
  from ms_Seq_split[OF u] obtain u1 where u1: "u1 \<in> set (ms r_digit s)"
    and v1: "u \<in> set (ms (Seq r_digit (Seq r_digit r_digit)) u1)" by blast
  from ms_Seq_split[OF v1] obtain u2 where u2: "u2 \<in> set (ms r_digit u1)"
    and v2: "u \<in> set (ms (Seq r_digit r_digit) u2)" by blast
  from ms_Seq_split[OF v2] obtain u3 where u3: "u3 \<in> set (ms r_digit u2)"
    and v3: "u \<in> set (ms r_digit u3)" by blast
  from ms_Atom_step[OF u1[unfolded r_digit_def]] obtain a where a: "rest s = a # rest u1" "is_digit a" by blast
  from ms_Atom_step[OF u2[unfolded r_digit_def]] obtain b where b: "rest u1 = b # rest u2" "is_digit b" by blast
  from ms_Atom_step[OF u3[unfolded r_digit_def]] obtain c where c: "rest u2 = c # rest u3" "is_digit c" by blast
  from ms_Atom_step[OF v3[unfolded r_digit_def]] obtain d where d: "rest u3 = d # rest u" "is_digit d" by blast
  have "rest s = [a, b, c, d] @ rest t" using a b c d r by simp
  then show ?thesis using a b c d by blast
qed

lemma strptime_mdY_four_digit_year:
  assumes "strptime fmt_mdY_slash s = Some d"
  shows "\<exists>w a b c e. s = w @ [a, b, c, e] \<and> is_digit a \<and> is_digit b \<and> is_digit c \<and> is_digit e"
proof -
  let ?rest = "Seq (item_re (Lit CHR ''/'')) (Seq (item_re Dd) (Seq (item_re (Lit CHR ''/'')) (item_re DY)))"
  have re: "seqs (map item_re fmt_mdY_slash) = Seq (item_re Dm) ?rest"
    by (simp add: fmt_mdY_slash_def)
  from assms obtain t ts where ms: "ms (Seq (item_re Dm) ?rest) (MState None s []) = t # ts"
    and rt: "rest t = []"
    unfolding strptime_def re by (auto split: list.splits if_splits)
  then have t: "t \<in> set (ms (Seq (item_re Dm) ?rest) (MState None s []))" by simp
  from ms_Seq_split[OF t] obtain u1 where u1: "u1 \<in> set (ms (item_re Dm) (MState None s []))"
    and v1: "t \<in> set (ms ?rest u1)" by blast
  from ms_Seq_split[OF v1] obtain u2 where u2: "u2 \<in> set (ms (item_re (Lit CHR ''/'')) u1)"
    and v2: "t \<in> set (ms (Seq (item_re Dd) (Seq (item_re (Lit CHR ''/'')) (item_re DY))) u2)" by blast
  from ms_Seq_split[OF v2] obtain u3 where u3: "u3 \<in> set (ms (item_re Dd) u2)"
    and v3: "t \<in> set (ms (Seq (item_re (Lit CHR ''/'')) (item_re DY)) u3)" by blast
  from ms_Seq_split[OF v3] obtain u4 where u4: "u4 \<in> set (ms (item_re (Lit CHR ''/'')) u3)"
    and v4: "t \<in> set (ms (item_re DY) u4)" by blast
  from ms_consumed[OF u1] obtain w1 where w1: "s = w1 @ rest u1" by auto
  from ms_consumed[OF u2] obtain w2 where w2: "rest u1 = w2 @ rest u2" by auto
  from ms_consumed[OF u3] obtain w3 where w3: "rest u2 = w3 @ rest u3" by auto
  from ms_consumed[OF u4] obtain w4 where w4: "rest u3 = w4 @ rest u4" by auto
  from four_digits_consumed[OF v4] obtain a b c e where
    y: "rest u4 = [a, b, c, e] @ rest t" "is_digit a" "is_digit b" "is_digit c" "is_digit e" by blast
  have "s = (w1 @ w2 @ w3 @ w4) @ [a, b, c, e]" using w1 w2 w3 w4 y(1) rt by simp
  then show ?thesis using y by blast
qed

lemma slash_not_digit: "\<not> is_digit CHR ''/''" by code_simp

lemma strptime_mdY_two_digit_year:
  "strptime fmt_mdY_slash (pre @ [CHR ''/'', y1, y2]) = None"
proof (cases "strptime fmt_mdY_slash (pre @ [CHR ''/'', y1, y2])")
  case None
  then show ?thesis .
next
  case (Some d)
  from strptime_mdY_four_digit_year[OF Some] obtain w a b c e where
    e: "pre @ [CHR ''/'', y1, y2] = w @ [a, b, c, e]" and b: "is_digit b" by blast
  have "rev (pre @ [CHR ''/'', y1, y2]) = rev (w @ [a, b, c, e])" using e by simp
  then have "b = CHR ''/''" by simp
  then show ?thesis using b slash_not_digit by simp
qed

text \<open>
  Claim C10, as amended. When the first match of the slash pattern has a two-digit year,
  \<^verbatim>\<open>parse_date\<close> tries only the format month/day/four-digit-year on it; that format
  needs four year digits, so the parse fails, the ValueError is caught, and the result is
  what the remaining four patterns give on the text. No date is read from the match.
\<close>

theorem two_digit_year_slash_date_skipped:
  assumes "map_option fst (re_search date_pattern1 tx) = Some (pre @ [CHR ''/'', y1, y2])"
  shows "strptime fmt_mdY_slash (pre @ [CHR ''/'', y1, y2]) = None
         \<and> parse_date tx =
             parse_date_loop [date_pattern2, date_pattern3, date_pattern4, date_pattern5] tx"
proof -
  from assms obtain m where m: "re_search date_pattern1 tx = Some m"
    and f: "fst m = pre @ [CHR ''/'', y1, y2]" by auto
  have s: "CHR ''/'' \<in> set (fst m)" using f by simp
  have "parse_match (fst m) = Inr None"
    unfolding parse_match_def using s f strptime_mdY_two_digit_year[of pre y1 y2] by simp
  then show ?thesis
    using m strptime_mdY_two_digit_year[of pre y1 y2]
    by (simp add: parse_date_def date_patterns_def)
qed

text \<open>
  Counterexample to C10 as stated: for \<open>03/15/24\<close> the slash pattern matches the whole
  text, the format rejects it, and the result is absent, not a date of the year 24.
\<close>

theorem two_digit_year_counterexample:
  "map_option fst (re_search date_pattern1 ''03/15/24'') = Some ''03/15/24''
   \<and> strptime fmt_mdY_slash ''03/15/24'' = None
   \<and> parse_date ''03/15/24'' = Inr None"
  by code_simp

text \<open>
  Witness for C10: the two-digit-year match is skipped and the ISO date after it is
  returned.
\<close>

theorem two_digit_year_slash_date_skipped_witness:
  "map_option fst (re_search date_pattern1 ''03/15/24 2024-03-15'') = Some (''03/15'' @ [CHR ''/'', CHR ''2'', CHR ''4''])
   \<and> parse_date ''03/15/24 2024-03-15'' = Inr (Some ''2024-03-15'')"
proof -
  have h: "map_option fst (re_search date_pattern1 ''03/15/24 2024-03-15'')
            = Some (''03/15'' @ [CHR ''/'', CHR ''2'', CHR ''4''])" by code_simp
  have r: "parse_date_loop [date_pattern2, date_pattern3, date_pattern4, date_pattern5]
             ''03/15/24 2024-03-15'' = Inr (Some ''2024-03-15'')" by code_simp
  from two_digit_year_slash_date_skipped[OF h] r h show ?thesis by simp
qed

text \<open>
  Claim C7. When the first match of the slash pattern in the text is \<open>03/15/2024\<close>,
  \<^verbatim>\<open>parse_date\<close> returns \<open>2024-03-15\<close>.
\<close>

theorem first_slash_date_normalised:
  assumes "map_option fst (re_search date_pattern1 tx) = Some ''03/15/2024''"
  shows "parse_date tx = Inr (Some ''2024-03-15'')"
proof -
  from assms obtain m where m: "re_search date_pattern1 tx = Some m"
    and f: "fst m = ''03/15/2024''" by auto
  have "parse_match ''03/15/2024'' = Inr (Some ''2024-03-15'')" by code_simp
  then show ?thesis using m f by (simp add: parse_date_def date_patterns_def)
qed

text \<open>
  Witness for C7: a line with a label before the date and a time after it.
\<close>

theorem first_slash_date_normalised_witness:
  "map_option fst (re_search date_pattern1 ''Date: 03/15/2024 10:42'') = Some ''03/15/2024''
   \<and> parse_date ''Date: 03/15/2024 10:42'' = Inr (Some ''2024-03-15'')"
proof -
  have h: "map_option fst (re_search date_pattern1 ''Date: 03/15/2024 10:42'') = Some ''03/15/2024''"
    by code_simp
  from first_slash_date_normalised[OF h] h show ?thesis by simp
qed

text \<open>
  Claim C2 fails on the code. For \<open>03-15-24\<close> the dash pattern matches, none of the four
  formats of the last branch parses the match, and \<^verbatim>\<open>parsed.strftime\<close> reads a local
  that was never assigned: \<^verbatim>\<open>parse_date\<close> raises UnboundLocalError, which the
  \<^verbatim>\<open>except ValueError\<close> does not catch, and \<^verbatim>\<open>process_receipt\<close> returns the error
  record. A date with a month name raises in the same way, and \<^verbatim>\<open>parse_items\<close>
  raises ValueError for a price that carries a symbol of the currency class other than
  the dollar sign (here U+00AC).
\<close>

theorem dash_date_two_digit_year_raises:
  "map_option fst (re_search date_pattern2 ''03-15-24'') = Some ''03-15-24''
   \<and> first_parse fallback_formats ''03-15-24'' = None
   \<and> parse_date ''03-15-24'' = Inl UnboundLocalError
   \<and> process_receipt strict today (Inr ''03-15-24'') = error_record UnboundLocalError today
   \<and> parse_date ''Jan 5, 2024'' = Inl UnboundLocalError
   \<and> parse_items (''Tea 1 @ '' @ [CHR 0xAC] @ ''1.00 $1.00'') = Inl ValueError"
  by code_simp

section \<open>Total and vendor\<close>

text \<open>
  The first two total patterns capture the label in group 1. A label holds no digit and
  no point, so its conversion always fails, and the loop always moves on: these two
  patterns never return an amount. Where the third pattern does not compile
  (\<open>strict\<close>), \<^verbatim>\<open>parse_total\<close> raises for every text and the record is always the
  error record.
\<close>

lemma label_group_no_number:
  assumes "list_all (\<lambda>d. \<not> galpha r (Suc 0) d) ''0123456789.''"
    and "search_from r p cs = Some m" and "group_of m (Suc 0) = Some g"
  shows "py_float (remove_char CHR '','' g) = None"
proof -
  have g: "\<forall>c\<in>set g. galpha r (Suc 0) c" using group_of_galpha[OF assms(2,3)] by simp
  have "\<forall>c\<in>set g. \<not> is_digit c \<and> c \<noteq> CHR ''.''"
  proof
    fix c assume c: "c \<in> set g"
    then have ga: "galpha r (Suc 0) c" using g by blast
    have "c \<notin> set ''0123456789.''" using assms(1) ga by (auto simp: list_all_iff)
    then show "\<not> is_digit c \<and> c \<noteq> CHR ''.''" using is_digit_cases[of c] by auto
  qed
  then have "\<forall>c\<in>set (remove_char CHR '','' g). \<not> is_digit c \<and> c \<noteq> CHR ''.''"
    by (simp add: remove_char_def)
  then show ?thesis by (rule py_float_needs_digit)
qed

lemma total_pattern1_label: "list_all (\<lambda>d. \<not> galpha total_pattern1 (Suc 0) d) ''0123456789.''"
  by code_simp

lemma total_pattern2_label: "list_all (\<lambda>d. \<not> galpha total_pattern2 (Suc 0) d) ''0123456789.''"
  by code_simp

lemma total_pattern1_shape: "\<exists>a b. total_pattern1 = Seq (Grp (Suc 0) a) b"
  by (simp add: total_pattern1_def)

lemma total_pattern2_shape: "\<exists>a b. total_pattern2 = Seq (Grp (Suc 0) a) b"
  by (simp add: total_pattern2_def)

lemma labelled_pattern_skipped:
  assumes "list_all (\<lambda>d. \<not> galpha r (Suc 0) d) ''0123456789.''"
    and "\<exists>a b. r = Seq (Grp (Suc 0) a) b"
  shows "parse_total_loop (Inr r # ps) tx = parse_total_loop ps tx"
proof (cases "re_search r tx")
  case None
  then show ?thesis by simp
next
  case (Some m)
  then have s: "search_from r None tx = Some m" by (simp add: re_search_def)
  from assms(2) s obtain g where g: "group_of m (Suc 0) = Some g"
    using search_from_leading_group by (fastforce simp: group_of_def)
  from label_group_no_number[OF assms(1) s g] Some g show ?thesis by simp
qed

lemma labelled_patterns_never_return:
  "parse_total_loop (Inr total_pattern1 # Inr total_pattern2 # ps) tx = parse_total_loop ps tx"
proof -
  have "parse_total_loop (Inr total_pattern1 # Inr total_pattern2 # ps) tx
          = parse_total_loop (Inr total_pattern2 # ps) tx"
    by (rule labelled_pattern_skipped[OF total_pattern1_label total_pattern1_shape])
  also have "\<dots> = parse_total_loop ps tx"
    by (rule labelled_pattern_skipped[OF total_pattern2_label total_pattern2_shape])
  finally show ?thesis .
qed

lemma parse_total_strict_always_raises: "parse_total True tx = Inl ReError"
proof -
  have "parse_total_loop (total_patterns True) tx = parse_total_loop [Inl ReError] tx"
    unfolding total_patterns_def by (simp only: if_True labelled_patterns_never_return)
  then show ?thesis by (simp add: parse_total_def)
qed

lemma process_receipt_strict_always_error:
  "\<exists>e. process_receipt True today acquired = error_record e today"
  by (auto simp: process_receipt_def parse_total_strict_always_raises split: sum.splits)

text \<open>
  Claim C3 fails on the code. In \<open>Total: $45.67\<close> followed by the line
  \<open>Change 5.00\<close> the first labelled pattern matches with the amount 45.67 in group 2, but
  the method converts group 1, the label: the conversion fails and the loop goes on.
  Where the third pattern compiles, the result is the last amount of the text, 5.00;
  where it does not, the method raises.
\<close>

theorem labelled_total_not_returned:
  "map_option (\<lambda>m. (group_of m 1, group_of m 2))
     (re_search total_pattern1 (''Total: $45.67'' @ [CHR 0x0A] @ ''Change 5.00''))
     = Some (Some ''Total'', Some ''45.67'')
   \<and> parse_total False (''Total: $45.67'' @ [CHR 0x0A] @ ''Change 5.00'') = Inr 5
   \<and> parse_total True (''Total: $45.67'' @ [CHR 0x0A] @ ''Change 5.00'') = Inl ReError"
  by code_simp

text \<open>
  The label pattern of \<^verbatim>\<open>parse_vendor\<close> captures the label in group 1, at least four
  letters without blanks: whenever the pattern matches, the method returns that label
  as it stands in the text.
\<close>

lemma vendor_pattern1_no_space:
  "list_all (\<lambda>d. \<not> galpha vendor_pattern1 (Suc 0) d)
     [CHR 0x09, CHR 0x0A, CHR 0x0B, CHR 0x0C, CHR 0x0D, CHR 0x1C, CHR 0x1D, CHR 0x1E, CHR 0x1F,
      CHR 0x20, CHR 0x85, CHR 0xA0]"
  by code_simp

lemma vendor_pattern1_min: "gmin_ge 4 vendor_pattern1 (Suc 0)"
  by code_simp

lemma vendor_pattern1_shape: "\<exists>a b. vendor_pattern1 = Seq (Grp (Suc 0) a) b"
  by (simp add: vendor_pattern1_def)

lemma label_pattern_returns_label:
  assumes "re_search vendor_pattern1 tx = Some m"
  shows "\<exists>g. group_of m 1 = Some g \<and> 4 \<le> length g \<and> parse_vendor tx = Inr g"
proof -
  have s: "search_from vendor_pattern1 None tx = Some m" using assms by (simp add: re_search_def)
  from vendor_pattern1_shape obtain a b where ab: "vendor_pattern1 = Seq (Grp (Suc 0) a) b"
    by blast
  from search_from_leading_group[OF s[unfolded ab]] obtain g where
    "map_of (caps (snd m)) (Suc 0) = Some g" by blast
  then have g: "group_of m (Suc 0) = Some g" by (simp add: group_of_def)
  have len: "4 \<le> length g" using group_of_min_len[OF s g _ vendor_pattern1_min] by simp
  have "\<forall>c\<in>set g. \<not> is_space c"
  proof
    fix c assume "c \<in> set g"
    then have "galpha vendor_pattern1 (Suc 0) c" using group_of_galpha[OF s g] by simp
    then show "\<not> is_space c"
      using vendor_pattern1_no_space is_space_cases[of c] by (auto simp: list_all_iff)
  qed
  then have st: "strip g = g" by (rule strip_no_space)
  have "parse_vendor tx = Inr g"
    using assms g st len by (simp add: parse_vendor_def vendor_patterns_def)
  then show ?thesis using g len by simp
qed

text \<open>
  Claim C4 fails on the code. In \<open>Vendor: Acme Corp\<close> the label pattern matches with the
  name in group 2; the method returns group 1, the label word.
\<close>

theorem vendor_label_returned:
  "map_option (\<lambda>m. (group_of m 1, group_of m 2)) (re_search vendor_pattern1 ''Vendor: Acme Corp'')
     = Some (Some ''Vendor'', Some ''Acme Corp'')
   \<and> parse_vendor ''Vendor: Acme Corp'' = Inr ''Vendor''"
  by code_simp

end
